theory Spec2Isabelle
  imports Main
begin

section \<open>zaqar: log token search and reporting\<close>

text \<open>
  A shallow embedding of \<^verbatim>\<open>main.go\<close>. Go strings are byte sequences and are modelled
  as \<^typ>\<open>string\<close>; the packages the program calls but does not contain (\<^verbatim>\<open>regexp\<close>,
  \<^verbatim>\<open>mailgun-go\<close>, \<^verbatim>\<open>os\<close>, \<^verbatim>\<open>bufio\<close>) are parameters collected in one record.
\<close>

subsection \<open>The parts of package \<^verbatim>\<open>strings\<close> the program uses\<close>

text \<open>\<^verbatim>\<open>strings.HasPrefix(s, prefix)\<close>.\<close>

fun HasPrefix :: "string \<Rightarrow> string \<Rightarrow> bool" where
  "HasPrefix s [] = True"
| "HasPrefix [] (p # ps) = False"
| "HasPrefix (c # s) (p # ps) = (c = p \<and> HasPrefix s ps)"

text \<open>
  \<^verbatim>\<open>strings.Contains(s, substr)\<close>: whether \<open>substr\<close> is within \<open>s\<close>, searched from the
  left, one start position after the other.
\<close>

fun Contains :: "string \<Rightarrow> string \<Rightarrow> bool" where
  "Contains [] substr = (substr = [])"
| "Contains (c # s) substr = (HasPrefix (c # s) substr \<or> Contains s substr)"

text \<open>\<^verbatim>\<open>strings.Join(elems, sep)\<close>.\<close>

fun Join :: "string list \<Rightarrow> string \<Rightarrow> string" where
  "Join [] sep = []"
| "Join [x] sep = x"
| "Join (x # y # zs) sep = x @ sep @ Join (y # zs) sep"

text \<open>
  The lines of a text whose lines are separated by the line feed: what
  \<^verbatim>\<open>strings.Split(body, "\n")\<close> returns. \<open>cur\<close> is the line being read.
\<close>

fun split_lines :: "string \<Rightarrow> string \<Rightarrow> string list" where
  "split_lines cur [] = [cur]"
| "split_lines cur (c # cs) =
     (if c = CHR 0x0A then cur # split_lines [] cs else split_lines (cur @ [c]) cs)"

definition Lines :: "string \<Rightarrow> string list" where
  "Lines body = split_lines [] body"

subsection \<open>External collaborators\<close>

text \<open>A message as \<^verbatim>\<open>mailgun.NewMessage(from, subject, text, to...)\<close> builds it.\<close>

record mail =
  from_addr :: string
  subject :: string
  text_body :: string
  recipients :: "string list"

text \<open>
  What \<^verbatim>\<open>os.Open\<close> and a \<^verbatim>\<open>bufio.Scanner\<close> over the file give: the lines the
  scanner returns, in file order, and the error \<^verbatim>\<open>scanner.Err()\<close> reports once
  \<^verbatim>\<open>Scan\<close> has returned false (\<open>None\<close> at a clean end of file).
\<close>

record logfile =
  scan_lines :: "string list"
  scan_err :: "string option"

text \<open>
  The environment of a run. \<open>MustCompile\<close> is \<open>None\<close> where \<^verbatim>\<open>regexp.MustCompile\<close>
  panics; \<open>FindStringIndex\<close> returns the location of the leftmost match, the empty
  list standing for Go's nil slice; \<open>mgSend domain apiKey publicApiKey m\<close> is the
  error of \<^verbatim>\<open>mg.Send(m)\<close>, if any; \<open>osOpen path\<close> is the error of \<^verbatim>\<open>os.Open\<close> or the file.
\<close>

record 're env =
  MustCompile :: "string \<Rightarrow> 're option"
  FindStringIndex :: "'re \<Rightarrow> string \<Rightarrow> int list"
  mgSend :: "string \<Rightarrow> string \<Rightarrow> string \<Rightarrow> mail \<Rightarrow> string option"
  osOpen :: "string \<Rightarrow> string + logfile"

text \<open>What the process has written to the outside: mail handed to Mailgun, log lines.\<close>

record sink =
  sent :: "mail list"
  logged :: "string list"

subsection \<open>The collector\<close>

text \<open>
  \<^verbatim>\<open>type collector struct\<close>. The mutex is not a field of the model: every method
  below is one atomic transition, which is what the lock gives \<^verbatim>\<open>Add\<close>,
  \<^verbatim>\<open>HasErrors\<close> and \<^verbatim>\<open>Errors\<close>.
\<close>

record collector =
  domain :: string
  apiKey :: string
  publicApiKey :: string
  errors :: "string \<rightharpoonup> string list"

definition NewCollector :: "string \<Rightarrow> string \<Rightarrow> string \<Rightarrow> collector" where
  "NewCollector d a p = \<lparr>domain = d, apiKey = a, publicApiKey = p, errors = Map.empty\<rparr>"

text \<open>Go's \<^verbatim>\<open>m[key]\<close> on a map of slices: the nil slice where the key is absent.\<close>

definition index_map :: "(string \<rightharpoonup> string list) \<Rightarrow> string \<Rightarrow> string list" where
  "index_map m name = (case m name of None \<Rightarrow> [] | Some l \<Rightarrow> l)"

definition Add :: "collector \<Rightarrow> string \<Rightarrow> string \<Rightarrow> collector" where
  "Add c name message =
     (let c1 = (if errors c name = None then c\<lparr>errors := (errors c)(name \<mapsto> [])\<rparr> else c)
      in c1\<lparr>errors := (errors c1)(name \<mapsto> index_map (errors c1) name @ [message])\<rparr>)"

definition HasErrors :: "collector \<Rightarrow> string \<Rightarrow> bool" where
  "HasErrors c name = (errors c name \<noteq> None)"

definition Errors :: "collector \<Rightarrow> string \<Rightarrow> string list" where
  "Errors c name = index_map (errors c) name"

definition developers :: string where
  "developers = ''Melon Developers <devs@melon.com.au>''"

definition report :: "collector \<Rightarrow> string \<Rightarrow> mail" where
  "report c name =
     \<lparr>from_addr = developers,
      subject = ''Log Errors: '' @ name,
      text_body = Join (index_map (errors c) name) [CHR 0x0A],
      recipients = [developers]\<rparr>"

text \<open>
  \<^verbatim>\<open>collector.Send\<close>: the collector is returned with the sink, although no branch
  writes to it.
\<close>

definition Send :: "'re env \<Rightarrow> collector \<Rightarrow> string \<Rightarrow> sink \<Rightarrow> collector \<times> sink" where
  "Send e c name w =
     (if HasErrors c name then
        let m = report c name;
            w1 = w\<lparr>sent := sent w @ [m]\<rparr>;
            w2 = (case mgSend e (domain c) (apiKey c) (publicApiKey c) m of
                    Some err \<Rightarrow>
                      w1\<lparr>logged := logged w1 @
                        [''Error: could not send log error report for '' @ name @ '': '' @ err]\<rparr>
                  | None \<Rightarrow> w1)
        in (c, w2\<lparr>logged := logged w2 @
                  [''Sending: '' @ Join (index_map (errors c) name) [CHR 0x0A]]\<rparr>)
      else (c, w))"

subsection \<open>Matchers\<close>

text \<open>The two implementations of \<^verbatim>\<open>type matcher interface\<close>, with their fields.\<close>

datatype 're matcher =
  regexpMatcher string 're
| substringMatcher string

text \<open>\<open>None\<close> is the panic of \<^verbatim>\<open>regexp.MustCompile\<close>.\<close>

definition NewRegexpMatcher :: "'re env \<Rightarrow> string \<Rightarrow> 're matcher option" where
  "NewRegexpMatcher e criteria =
     (case MustCompile e criteria of None \<Rightarrow> None | Some re \<Rightarrow> Some (regexpMatcher criteria re))"

definition NewSubstringMatcher :: "string \<Rightarrow> 're matcher" where
  "NewSubstringMatcher criteria = substringMatcher criteria"

fun Match :: "'re env \<Rightarrow> 're matcher \<Rightarrow> string \<Rightarrow> bool" where
  "Match e (regexpMatcher criteria re) text =
     (let match = FindStringIndex e re text
      in if match = [] \<or> length match < 1 then False else True)"
| "Match e (substringMatcher criteria) text = Contains criteria text"

subsection \<open>The matcher worker, run on its own\<close>

text \<open>The body of the loop of \<^verbatim>\<open>startMatcher\<close>, for one line taken from the queue.\<close>

definition process_line :: "'re env \<Rightarrow> 're matcher \<Rightarrow> string \<Rightarrow> string \<Rightarrow> collector \<Rightarrow> collector" where
  "process_line e m name line c = (if Match e m line then Add c name line else c)"

text \<open>
  \<^verbatim>\<open>for line := range queue\<close>, given the lines the queue delivers before it is
  closed, with no other writer to the collector.
\<close>

fun range_queue :: "'re env \<Rightarrow> 're matcher \<Rightarrow> string \<Rightarrow> string list \<Rightarrow> collector \<Rightarrow> collector" where
  "range_queue e m name [] c = c"
| "range_queue e m name (line # queue) c = range_queue e m name queue (process_line e m name line c)"

subsection \<open>Histories of collector calls\<close>

text \<open>
  The four methods of the collector as calls, and a sequence of calls run from a
  collector and a sink. \<^verbatim>\<open>HasErrors\<close> and \<^verbatim>\<open>Errors\<close> only read.
\<close>

datatype call =
  CallAdd string string
| CallHasErrors string
| CallErrors string
| CallSend string

fun do_call :: "'re env \<Rightarrow> call \<Rightarrow> collector \<times> sink \<Rightarrow> collector \<times> sink" where
  "do_call e (CallAdd name message) (c, w) = (Add c name message, w)"
| "do_call e (CallHasErrors name) (c, w) = (c, w)"
| "do_call e (CallErrors name) (c, w) = (c, w)"
| "do_call e (CallSend name) (c, w) = Send e c name w"

fun do_calls :: "'re env \<Rightarrow> call list \<Rightarrow> collector \<times> sink \<Rightarrow> collector \<times> sink" where
  "do_calls e [] s = s"
| "do_calls e (x # xs) s = do_calls e xs (do_call e x s)"

text \<open>The messages the \<^verbatim>\<open>Add\<close> calls of a history gave for \<open>name\<close>, in call order.\<close>

fun added :: "call list \<Rightarrow> string \<Rightarrow> string list" where
  "added [] name = []"
| "added (CallAdd n message # cs) name = (if n = name then message # added cs name else added cs name)"
| "added (CallHasErrors n # cs) name = added cs name"
| "added (CallErrors n # cs) name = added cs name"
| "added (CallSend n # cs) name = added cs name"

text \<open>A line as the scanner returns it holds no line feed.\<close>

definition is_line :: "string \<Rightarrow> bool" where
  "is_line l = (CHR 0x0A \<notin> set l)"

subsection \<open>An environment for examples\<close>

text \<open>\<^verbatim>\<open>strings.Index(s, substr)\<close>: the first position of \<open>substr\<close> in \<open>s\<close>, or -1.\<close>

fun Index :: "string \<Rightarrow> string \<Rightarrow> int" where
  "Index [] substr = (if substr = [] then 0 else - 1)"
| "Index (c # s) substr =
     (if HasPrefix (c # s) substr then 0
      else let i = Index s substr in if i < 0 then - 1 else i + 1)"

text \<open>
  An environment to run examples in: the patterns are those without metacharacters,
  which \<^verbatim>\<open>regexp\<close> matches as literal text; Mailgun accepts every message; the file
  system holds the listed files.
\<close>

definition example_env :: "(string \<times> logfile) list \<Rightarrow> string env" where
  "example_env files =
     \<lparr>MustCompile = (\<lambda>criteria. Some criteria),
      FindStringIndex = (\<lambda>re s. let i = Index s re in if i < 0 then [] else [i, i + int (length re)]),
      mgSend = (\<lambda>d a p m. None),
      osOpen = (\<lambda>path. case map_of files path of
                  None \<Rightarrow> Inl (''open '' @ path @ '': no such file or directory'')
                | Some f \<Rightarrow> Inr f)\<rparr>"

subsection \<open>Configuration\<close>

text \<open>
  \<^verbatim>\<open>type StringTuple [2]string\<close>: element 0 is the flavour of a matcher, element 1 its
  criteria. \<^verbatim>\<open>Config.Logs\<close> is a Go map from the name of a log to its configuration; it
  is modelled by the list of its entries.
\<close>

type_synonym StringTuple = "string \<times> string"

record mailgunConfig =
  Domain :: string
  ApiKey :: string
  PublicApiKey :: string

record logConfig =
  Path :: string
  Matchers :: "StringTuple list"

record Config =
  Mailgun :: mailgunConfig
  Logs :: "(string \<times> logConfig) list"

subsection \<open>Goroutines, channels and the steps of a run\<close>

text \<open>
  A run of the process is an interleaving of steps of its goroutines: \<^verbatim>\<open>main\<close>, one
  coordinator for each log (\<^verbatim>\<open>startPipeline\<close>) and one worker for each matcher of each
  log (\<^verbatim>\<open>startMatcher\<close>). Every statement that can block, and every statement whose
  effect another goroutine can see, is a step of its own; the first loop of
  \<^verbatim>\<open>startPipeline\<close>, which only makes channels and starts goroutines, is a single
  step. A goroutine that is blocked has no step, and a state in which no goroutine has
  a step stays as it is. \<^verbatim>\<open>collector.Send\<close> is one step although it reads the map after
  \<^verbatim>\<open>HasErrors\<close> has released the lock: when it runs every worker of its log has
  returned, so the list of this log no longer changes. A worker of another log may
  write to the map at that moment; what Go does with a read of a map that is not
  synchronised with such a write is outside the model.
\<close>

text \<open>
  A \<^verbatim>\<open>chan string\<close> made by \<^verbatim>\<open>make(chan string, 1)\<close>: the lines buffered, oldest first,
  and whether the channel has been closed.
\<close>

record chan =
  buf :: "string list"
  closed :: bool

definition make_chan :: chan where
  "make_chan = \<lparr>buf = [], closed = False\<rparr>"

text \<open>The capacity of every queue of \<^verbatim>\<open>startPipeline\<close>.\<close>

definition queue_cap :: nat where
  "queue_cap = 1"

text \<open>
  Where a goroutine running \<^verbatim>\<open>startMatcher\<close> stands: created and not yet run (with
  its flavour and criteria), at the head of \<^verbatim>\<open>for line := range queue\<close>, in the body
  of that loop with the line it received, or returned.
\<close>

datatype 're worker =
  Starting string string
| Receiving "'re matcher"
| Matching "'re matcher" string
| Returned

text \<open>
  Where a goroutine running \<^verbatim>\<open>startPipeline\<close> stands. \<open>Broadcasting line pending\<close> is
  the head of \<^verbatim>\<open>for _, q := range queues\<close> in the read loop, \<open>pending\<close> the keys of
  the map not yet visited; \<open>Sending line k pending\<close> is the statement
  \<^verbatim>\<open>q <- scanner.Text()\<close> for the queue of key \<open>k\<close>; \<open>Closing pending\<close> is the head of
  the loop that closes the queues.
\<close>

datatype coordinator =
  Spawning
| Opening
| Scanning
| Broadcasting string "nat list"
| Sending string nat "nat list"
| Closing "nat list"
| Waiting
| Reporting
| Signalling
| Finished

text \<open>
  One call of \<^verbatim>\<open>startPipeline\<close> with the goroutines it starts. \<open>pl_queues\<close> is the map
  \<^verbatim>\<open>queues\<close>, whose keys are the positions of the list; \<open>pl_wg\<close> is the counter of the
  wait group; \<open>pl_scanner\<close> is what the scanner has yet to return. Two fields record
  what happened and are read by no step: \<open>pl_round\<close>, the keys the current loop over
  \<^verbatim>\<open>queues\<close> has sent the line to, in order, and \<open>pl_rounds\<close>, the same for every
  loop completed before, oldest first.
\<close>

record 're pipeline =
  pl_name :: string
  pl_logc :: logConfig
  pl_coord :: coordinator
  pl_scanner :: logfile
  pl_queues :: "chan list"
  pl_workers :: "'re worker list"
  pl_wg :: int
  pl_round :: "nat list"
  pl_rounds :: "nat list list"

text \<open>
  What all goroutines share: the exit status once the process has terminated, the
  collector, the outside world, and the number of values buffered in \<^verbatim>\<open>done\<close>.
\<close>

record shared =
  sh_exit :: "nat option"
  sh_collector :: collector
  sh_sink :: sink
  sh_done :: nat

record 're process =
  pr_shared :: shared
  pr_pipelines :: "'re pipeline list"
  pr_main :: nat

text \<open>\<^verbatim>\<open>log.Fatal(err)\<close>: the error is logged and the process exits with status 1.\<close>

definition log_Fatal :: "string \<Rightarrow> shared \<Rightarrow> shared" where
  "log_Fatal err sh =
     sh\<lparr>sh_sink := (sh_sink sh)\<lparr>logged := logged (sh_sink sh) @ [err]\<rparr>, sh_exit := Some 1\<rparr>"

definition log_Printf :: "string \<Rightarrow> shared \<Rightarrow> shared" where
  "log_Printf line sh = sh\<lparr>sh_sink := (sh_sink sh)\<lparr>logged := logged (sh_sink sh) @ [line]\<rparr>\<rparr>"

text \<open>A panic no goroutine recovers from: the Go runtime exits with status 2.\<close>

definition panic :: "shared \<Rightarrow> shared" where
  "panic sh = sh\<lparr>sh_exit := Some 2\<rparr>"

text \<open>The keys of \<^verbatim>\<open>queues\<close>.\<close>

definition queue_keys :: "'re pipeline \<Rightarrow> nat list" where
  "queue_keys p = [0..<length (pl_queues p)]"

text \<open>
  The goroutine \<^verbatim>\<open>go startPipeline(name, log, collector, done)\<close> as created, before its
  first statement.
\<close>

definition startPipeline :: "string \<Rightarrow> logConfig \<Rightarrow> 're pipeline" where
  "startPipeline name logc =
     \<lparr>pl_name = name, pl_logc = logc, pl_coord = Spawning,
      pl_scanner = \<lparr>scan_lines = [], scan_err = None\<rparr>,
      pl_queues = [], pl_workers = [], pl_wg = 0, pl_round = [], pl_rounds = []\<rparr>"

text \<open>
  One step of \<^verbatim>\<open>startPipeline\<close>. \<open>None\<close> means the goroutine cannot move: it is
  blocked on a channel or on the wait group, or it has returned. A \<^verbatim>\<open>range\<close> over a Go
  map visits every key once in an order the language leaves open, so the key visited
  next, \<open>k\<close>, is given from outside and may be any key not yet visited. \<open>cap_done\<close> is
  the capacity of \<^verbatim>\<open>done\<close>.
\<close>

definition startPipeline_step ::
  "'re env \<Rightarrow> nat \<Rightarrow> nat \<Rightarrow> shared \<Rightarrow> 're pipeline \<Rightarrow> ('re pipeline \<times> shared) option" where
  "startPipeline_step e cap_done k sh p =
     (case pl_coord p of
        Spawning \<Rightarrow>
          Some (p\<lparr>pl_queues := map (\<lambda>m. make_chan) (Matchers (pl_logc p)),
                  pl_workers := map (\<lambda>m. Starting (fst m) (snd m)) (Matchers (pl_logc p)),
                  pl_wg := int (length (Matchers (pl_logc p))),
                  pl_coord := Opening\<rparr>, sh)
      | Opening \<Rightarrow>
          (case osOpen e (Path (pl_logc p)) of
             Inl err \<Rightarrow> Some (p, log_Fatal err sh)
           | Inr f \<Rightarrow> Some (p\<lparr>pl_scanner := f, pl_coord := Scanning\<rparr>, sh))
      | Scanning \<Rightarrow>
          (case scan_lines (pl_scanner p) of
             line # rest \<Rightarrow>
               Some (p\<lparr>pl_scanner := (pl_scanner p)\<lparr>scan_lines := rest\<rparr>,
                       pl_round := [],
                       pl_coord := Broadcasting line (queue_keys p)\<rparr>, sh)
           | [] \<Rightarrow>
               (case scan_err (pl_scanner p) of
                  Some err \<Rightarrow> Some (p, log_Fatal err sh)
                | None \<Rightarrow> Some (p\<lparr>pl_coord := Closing (queue_keys p)\<rparr>, sh)))
      | Broadcasting line pending \<Rightarrow>
          (if pending = [] then
             Some (p\<lparr>pl_rounds := pl_rounds p @ [pl_round p], pl_coord := Scanning\<rparr>, sh)
           else if k \<in> set pending then
             Some (p\<lparr>pl_coord := Sending line k (remove1 k pending)\<rparr>, sh)
           else None)
      | Sending line i pending \<Rightarrow>
          (if i < length (pl_queues p) then
             (let q = pl_queues p ! i in
              if closed q then Some (p, panic sh)
              else if length (buf q) < queue_cap then
                Some (p\<lparr>pl_queues := (pl_queues p)[i := q\<lparr>buf := buf q @ [line]\<rparr>],
                        pl_round := pl_round p @ [i],
                        pl_coord := Broadcasting line pending\<rparr>, sh)
              else None)
           else None)
      | Closing pending \<Rightarrow>
          (if pending = [] then Some (p\<lparr>pl_coord := Waiting\<rparr>, sh)
           else if k \<in> set pending \<and> k < length (pl_queues p) then
             (let q = pl_queues p ! k in
              if closed q then Some (p, panic sh)
              else Some (p\<lparr>pl_queues := (pl_queues p)[k := q\<lparr>closed := True\<rparr>],
                           pl_coord := Closing (remove1 k pending)\<rparr>, sh))
           else None)
      | Waiting \<Rightarrow>
          (if pl_wg p = 0 then Some (p\<lparr>pl_coord := Reporting\<rparr>, sh) else None)
      | Reporting \<Rightarrow>
          (case Send e (sh_collector sh) (pl_name p) (sh_sink sh) of
             (c, w) \<Rightarrow> Some (p\<lparr>pl_coord := Signalling\<rparr>, sh\<lparr>sh_collector := c, sh_sink := w\<rparr>))
      | Signalling \<Rightarrow>
          (if sh_done sh < cap_done then
             Some (p\<lparr>pl_coord := Finished\<rparr>, sh\<lparr>sh_done := sh_done sh + 1\<rparr>)
           else None)
      | Finished \<Rightarrow> None)"

text \<open>\<^verbatim>\<open>defer wg.Done()\<close> as the worker of key \<open>j\<close> returns.\<close>

definition wg_Done :: "nat \<Rightarrow> shared \<Rightarrow> 're pipeline \<Rightarrow> 're pipeline \<times> shared" where
  "wg_Done j sh p =
     (if pl_wg p - 1 < 0 then (p, panic sh)
      else (p\<lparr>pl_workers := (pl_workers p)[j := Returned], pl_wg := pl_wg p - 1\<rparr>, sh))"

text \<open>
  One step of the goroutine \<^verbatim>\<open>startMatcher(name, m[0], m[1], collector, queues[j], wg)\<close>.
  \<open>None\<close>: blocked on its queue, returned, or never created.
\<close>

definition startMatcher_step ::
  "'re env \<Rightarrow> nat \<Rightarrow> shared \<Rightarrow> 're pipeline \<Rightarrow> ('re pipeline \<times> shared) option" where
  "startMatcher_step e j sh p =
     (if j < length (pl_workers p) \<and> j < length (pl_queues p) then
        (case pl_workers p ! j of
           Starting flavour criteria \<Rightarrow>
             (if flavour = ''regexp'' then
                (case NewRegexpMatcher e criteria of
                   None \<Rightarrow> Some (p, panic sh)
                 | Some m \<Rightarrow> Some (p\<lparr>pl_workers := (pl_workers p)[j := Receiving m]\<rparr>, sh))
              else if flavour = ''substring'' then
                Some (p\<lparr>pl_workers := (pl_workers p)[j := Receiving (NewSubstringMatcher criteria)]\<rparr>, sh)
              else
                Some (wg_Done j (log_Printf (''Error: unknown matcher '' @ flavour) sh) p))
         | Receiving m \<Rightarrow>
             (let q = pl_queues p ! j in
              case buf q of
                line # rest \<Rightarrow>
                  Some (p\<lparr>pl_queues := (pl_queues p)[j := q\<lparr>buf := rest\<rparr>],
                          pl_workers := (pl_workers p)[j := Matching m line]\<rparr>, sh)
              | [] \<Rightarrow> (if closed q then Some (wg_Done j sh p) else None))
         | Matching m line \<Rightarrow>
             Some (p\<lparr>pl_workers := (pl_workers p)[j := Receiving m]\<rparr>,
                   sh\<lparr>sh_collector := process_line e m (pl_name p) line (sh_collector sh)\<rparr>)
         | Returned \<Rightarrow> None)
      else None)"

text \<open>
  The process as \<^verbatim>\<open>main\<close> leaves it after its first loop: a new collector, an empty
  \<^verbatim>\<open>done\<close>, one pipeline goroutine for each log, and \<^verbatim>\<open>main\<close> about to wait.
\<close>

definition main_start :: "Config \<Rightarrow> 're process" where
  "main_start conf =
     \<lparr>pr_shared =
        \<lparr>sh_exit = None,
         sh_collector = NewCollector (Domain (Mailgun conf)) (ApiKey (Mailgun conf))
                          (PublicApiKey (Mailgun conf)),
         sh_sink = \<lparr>sent = [], logged = []\<rparr>,
         sh_done = 0\<rparr>,
      pr_pipelines = map (\<lambda>(name, logc). startPipeline name logc) (Logs conf),
      pr_main = 0\<rparr>"

text \<open>
  One step of \<^verbatim>\<open>main\<close> in \<^verbatim>\<open>for i := 0; i < len(conf.Logs); i++ { <-done }\<close>; when
  the loop is over \<^verbatim>\<open>main\<close> returns and the process exits with status 0.
\<close>

definition main_step :: "'re process \<Rightarrow> 're process option" where
  "main_step s =
     (if pr_main s < length (pr_pipelines s) then
        (if 0 < sh_done (pr_shared s) then
           Some (s\<lparr>pr_shared := (pr_shared s)\<lparr>sh_done := sh_done (pr_shared s) - 1\<rparr>,
                   pr_main := pr_main s + 1\<rparr>)
         else None)
      else Some (s\<lparr>pr_shared := (pr_shared s)\<lparr>sh_exit := Some 0\<rparr>\<rparr>))"

text \<open>
  Which goroutine moves next: \<^verbatim>\<open>main\<close>, the coordinator of pipeline \<open>i\<close> (with the
  key its map iteration visits next, read only where it iterates), or worker \<open>j\<close> of
  pipeline \<open>i\<close>.
\<close>

datatype choice =
  RunMain
| RunPipeline nat nat
| RunMatcher nat nat

definition put_pipeline :: "'re process \<Rightarrow> nat \<Rightarrow> ('re pipeline \<times> shared) option \<Rightarrow> 're process option" where
  "put_pipeline s i r =
     (case r of
        None \<Rightarrow> None
      | Some (p, sh) \<Rightarrow> Some (s\<lparr>pr_shared := sh, pr_pipelines := (pr_pipelines s)[i := p]\<rparr>))"

text \<open>One step of the process; no goroutine moves once the process has exited.\<close>

definition fire :: "'re env \<Rightarrow> choice \<Rightarrow> 're process \<Rightarrow> 're process option" where
  "fire e ch s =
     (if sh_exit (pr_shared s) \<noteq> None then None
      else case ch of
        RunMain \<Rightarrow> main_step s
      | RunPipeline i k \<Rightarrow>
          (if i < length (pr_pipelines s) then
             put_pipeline s i
               (startPipeline_step e (length (pr_pipelines s)) k (pr_shared s) (pr_pipelines s ! i))
           else None)
      | RunMatcher i j \<Rightarrow>
          (if i < length (pr_pipelines s) then
             put_pipeline s i (startMatcher_step e j (pr_shared s) (pr_pipelines s ! i))
           else None))"

text \<open>A schedule run from a state; \<open>None\<close> when one of its choices cannot move.\<close>

fun exec :: "'re env \<Rightarrow> choice list \<Rightarrow> 're process \<Rightarrow> 're process option" where
  "exec e [] s = Some s"
| "exec e (ch # chs) s = (case fire e ch s of None \<Rightarrow> None | Some s' \<Rightarrow> exec e chs s')"

text \<open>The states a run of the configuration can be in.\<close>

definition reachable :: "'re env \<Rightarrow> Config \<Rightarrow> 're process \<Rightarrow> bool" where
  "reachable e conf s = (\<exists>chs. exec e chs (main_start conf) = Some s)"

subsection \<open>Example configurations\<close>

text \<open>One log with one pattern matcher, over a file that does not exist.\<close>

definition missing_conf :: Config where
  "missing_conf =
     \<lparr>Mailgun = \<lparr>Domain = ''example.org'', ApiKey = ''key'', PublicApiKey = ''pubkey''\<rparr>,
      Logs = [(''app'', \<lparr>Path = ''/var/log/app.log'', Matchers = [(''regexp'', ''ERROR'')]\<rparr>)]\<rparr>"

text \<open>One log with two matchers over a file of two lines, and a run of it.\<close>

definition two_conf :: Config where
  "two_conf =
     \<lparr>Mailgun = \<lparr>Domain = ''example.org'', ApiKey = ''key'', PublicApiKey = ''pubkey''\<rparr>,
      Logs = [(''app'', \<lparr>Path = ''/var/log/app.log'',
                         Matchers = [(''regexp'', ''ERROR''), (''substring'', ''disk full'')]\<rparr>)]\<rparr>"

definition two_files :: "(string \<times> logfile) list" where
  "two_files =
     [(''/var/log/app.log'',
       \<lparr>scan_lines = [''ERROR: disk full'', ''ERROR: timeout''], scan_err = None\<rparr>)]"

text \<open>
  The coordinator reads the first line and sends it to queue 0, then to queue 1; both
  workers take it; the coordinator reads the second line and sends it to queue 1, then
  to queue 0.
\<close>

definition two_schedule :: "choice list" where
  "two_schedule =
     [RunPipeline 0 0, RunPipeline 0 0, RunPipeline 0 0,
      RunPipeline 0 0, RunPipeline 0 0, RunPipeline 0 1, RunPipeline 0 1, RunPipeline 0 0,
      RunMatcher 0 0, RunMatcher 0 0, RunMatcher 0 1, RunMatcher 0 1,
      RunPipeline 0 0,
      RunPipeline 0 1, RunPipeline 0 1, RunPipeline 0 0, RunPipeline 0 0, RunPipeline 0 0]"

subsection \<open>Invariants of a pipeline\<close>

text \<open>
  What holds of a pipeline in every state of a run: its name and configuration are
  those it was started with; once the workers are spawned there is one queue and one
  worker for each configured matcher; every completed loop over \<^verbatim>\<open>queues\<close> has
  visited each key once; and the loop in progress has visited, or has yet to visit, each
  key once.
\<close>

definition visits_all :: "nat list \<Rightarrow> nat \<Rightarrow> bool" where
  "visits_all r n = (distinct r \<and> set r = {0..<n})"

definition pipeline_ok :: "string \<Rightarrow> logConfig \<Rightarrow> 're pipeline \<Rightarrow> bool" where
  "pipeline_ok name logc p =
     (pl_name p = name \<and> pl_logc p = logc
      \<and> length (pl_workers p) = length (pl_queues p)
      \<and> (\<forall>r\<in>set (pl_rounds p). visits_all r (length (Matchers logc)))
      \<and> (case pl_coord p of
            Spawning \<Rightarrow> pl_queues p = [] \<and> pl_rounds p = []
          | Broadcasting line pending \<Rightarrow>
              length (pl_queues p) = length (Matchers logc)
              \<and> visits_all (pl_round p @ pending) (length (Matchers logc))
          | Sending line k pending \<Rightarrow>
              length (pl_queues p) = length (Matchers logc)
              \<and> visits_all (pl_round p @ k # pending) (length (Matchers logc))
          | _ \<Rightarrow> length (pl_queues p) = length (Matchers logc)))"

subsection \<open>A worker that never receives\<close>

text \<open>
  One log with a matcher of an unknown flavour and a pattern matcher, over a file of
  two lines, and a run of it: the coordinator sends the first line to both queues and
  reads the second; the worker of the unknown flavour logs and returns; the other worker
  takes the first line and records it.
\<close>

definition unknown_conf :: Config where
  "unknown_conf =
     \<lparr>Mailgun = \<lparr>Domain = ''example.org'', ApiKey = ''key'', PublicApiKey = ''pubkey''\<rparr>,
      Logs = [(''app'', \<lparr>Path = ''/var/log/app.log'',
                         Matchers = [(''unknown'', ''x''), (''regexp'', ''WARN'')]\<rparr>)]\<rparr>"

definition unknown_files :: "(string \<times> logfile) list" where
  "unknown_files =
     [(''/var/log/app.log'',
       \<lparr>scan_lines = [''WARN: low memory'', ''WARN: again''], scan_err = None\<rparr>)]"

definition unknown_schedule :: "choice list" where
  "unknown_schedule =
     [RunPipeline 0 0, RunPipeline 0 0, RunPipeline 0 0,
      RunPipeline 0 0, RunPipeline 0 0, RunPipeline 0 1, RunPipeline 0 1, RunPipeline 0 0,
      RunPipeline 0 0, RunPipeline 0 0,
      RunMatcher 0 0, RunMatcher 0 1, RunMatcher 0 1, RunMatcher 0 1]"

text \<open>The coordinator has not left its read loop.\<close>

definition reading :: "coordinator \<Rightarrow> bool" where
  "reading c =
     (case c of
        Spawning \<Rightarrow> True | Opening \<Rightarrow> True | Scanning \<Rightarrow> True
      | Broadcasting line pending \<Rightarrow> True | Sending line k pending \<Rightarrow> True
      | _ \<Rightarrow> False)"

text \<open>The coordinator has returned from \<^verbatim>\<open>collector.Send\<close>.\<close>

fun signalled :: "coordinator \<Rightarrow> bool" where
  "signalled Signalling = True"
| "signalled Finished = True"
| "signalled _ = False"

text \<open>Every mail handed to Mailgun is the report of a pipeline that has called \<^verbatim>\<open>Send\<close>.\<close>

definition sent_ok :: "'re process \<Rightarrow> bool" where
  "sent_ok s =
     (\<forall>m\<in>set (sent (sh_sink (pr_shared s))).
        \<exists>j<length (pr_pipelines s).
          subject m = ''Log Errors: '' @ pl_name (pr_pipelines s ! j)
          \<and> signalled (pl_coord (pr_pipelines s ! j)))"

text \<open>A worker that takes nothing from its queue, now or later.\<close>

definition never_receives :: "'re worker \<Rightarrow> bool" where
  "never_receives w =
     (case w of
        Starting flavour criteria \<Rightarrow> flavour \<noteq> ''regexp'' \<and> flavour \<noteq> ''substring''
      | Returned \<Rightarrow> True
      | _ \<Rightarrow> False)"

text \<open>
  The state of a pipeline whose worker \<open>k\<close> never receives, over a file of \<open>n\<close> lines:
  every line read so far, but the one being broadcast if queue \<open>k\<close> is still to be
  visited, lies in queue \<open>k\<close>, which holds at most one.
\<close>

definition stalled :: "nat \<Rightarrow> nat \<Rightarrow> 're pipeline \<Rightarrow> bool" where
  "stalled n k p =
     (let a = length (buf (pl_queues p ! k)); rem = length (scan_lines (pl_scanner p)) in
      case pl_coord p of
        Spawning \<Rightarrow> True
      | Opening \<Rightarrow> never_receives (pl_workers p ! k) \<and> a = 0
      | Scanning \<Rightarrow> never_receives (pl_workers p ! k) \<and> a \<le> 1 \<and> rem + a = n
      | Broadcasting line pending \<Rightarrow>
          never_receives (pl_workers p ! k) \<and> a \<le> 1
          \<and> (if k \<in> set pending then rem + a + 1 = n else rem + 1 = n \<and> a = 1)
      | Sending line j pending \<Rightarrow>
          never_receives (pl_workers p ! k) \<and> a \<le> 1
          \<and> (if k = j \<or> k \<in> set pending then rem + a + 1 = n else rem + 1 = n \<and> a = 1)
      | _ \<Rightarrow> False)"

text \<open>
  Matcher \<open>k\<close> of the log has a flavour \<^verbatim>\<open>startMatcher\<close> does not know, and the file of
  the log opens and has two lines or more.
\<close>

definition unknown_at :: "'re env \<Rightarrow> logConfig \<Rightarrow> nat \<Rightarrow> logfile \<Rightarrow> bool" where
  "unknown_at e logc k f =
     (k < length (Matchers logc)
      \<and> fst (Matchers logc ! k) \<noteq> ''regexp'' \<and> fst (Matchers logc ! k) \<noteq> ''substring''
      \<and> osOpen e (Path logc) = Inr f \<and> 2 \<le> length (scan_lines f))"

subsection \<open>A log with a single matcher\<close>

text \<open>
  The matcher the \<^verbatim>\<open>switch\<close> of \<^verbatim>\<open>startMatcher\<close> constructs for a flavour and criteria;
  \<open>None\<close> where it constructs none (the pattern does not compile, or the flavour is
  unknown).
\<close>

definition matcher_of :: "'re env \<Rightarrow> string \<Rightarrow> string \<Rightarrow> 're matcher option" where
  "matcher_of e flavour criteria =
     (if flavour = ''regexp'' then NewRegexpMatcher e criteria
      else if flavour = ''substring'' then Some (NewSubstringMatcher criteria)
      else None)"

text \<open>The coordinator has left its read loop.\<close>

fun closing :: "coordinator \<Rightarrow> bool" where
  "closing (Closing pending) = True"
| "closing Waiting = True"
| "closing Reporting = True"
| "closing Signalling = True"
| "closing Finished = True"
| "closing _ = False"

text \<open>The coordinator has passed \<^verbatim>\<open>wg.Wait()\<close>.\<close>

fun reported :: "coordinator \<Rightarrow> bool" where
  "reported Reporting = True"
| "reported Signalling = True"
| "reported Finished = True"
| "reported _ = False"

text \<open>
  The lines on their way to worker 0 and not yet processed by it, in order: the line
  the worker has received, the lines in its queue, the line the coordinator has read
  and not yet sent to queue 0, and the lines the scanner has yet to return.
\<close>

fun coordinator_holds :: "coordinator \<Rightarrow> string list" where
  "coordinator_holds (Broadcasting line pending) = (if 0 \<in> set pending then [line] else [])"
| "coordinator_holds (Sending line k pending) = (if k = 0 \<or> 0 \<in> set pending then [line] else [])"
| "coordinator_holds _ = []"

fun worker_holds :: "'re worker \<Rightarrow> string list" where
  "worker_holds (Matching m line) = [line]"
| "worker_holds _ = []"

text \<open>A worker started with the flavour and criteria, whose matcher, once built, is \<open>m\<close>.\<close>

fun worker_of :: "'re matcher \<Rightarrow> string \<Rightarrow> string \<Rightarrow> 're worker \<Rightarrow> bool" where
  "worker_of m flavour criteria (Starting fl cr) = (fl = flavour \<and> cr = criteria)"
| "worker_of m flavour criteria (Receiving m') = (m' = m)"
| "worker_of m flavour criteria (Matching m' line) = (m' = m)"
| "worker_of m flavour criteria Returned = True"

definition in_flight :: "'re pipeline \<Rightarrow> string list" where
  "in_flight p =
     worker_holds (pl_workers p ! 0) @ buf (pl_queues p ! 0)
     @ coordinator_holds (pl_coord p) @ scan_lines (pl_scanner p)"

text \<open>
  The state of a pipeline with one matcher, over a file with the lines \<open>all\<close>, when
  the collector holds \<open>errs\<close> for its name: what is recorded, followed by the matches
  among the lines on their way, is the matches among the lines of the file.
\<close>

definition single_ok ::
  "'re env \<Rightarrow> 're matcher \<Rightarrow> string \<Rightarrow> string \<Rightarrow> string list \<Rightarrow> string list \<Rightarrow> 're pipeline \<Rightarrow> bool" where
  "single_ok e m flavour criteria all errs p =
     (if pl_coord p = Spawning then errs = [] \<and> scan_lines (pl_scanner p) = []
      else
        worker_of m flavour criteria (pl_workers p ! 0)
        \<and> pl_wg p = (if pl_workers p ! 0 = Returned then 0 else 1)
        \<and> (if closing (pl_coord p) then
             scan_lines (pl_scanner p) = []
             \<and> (pl_workers p ! 0 = Returned \<longrightarrow>
                  buf (pl_queues p ! 0) = [] \<and> closed (pl_queues p ! 0))
             \<and> (reported (pl_coord p) \<longrightarrow> pl_workers p ! 0 = Returned)
           else \<not> closed (pl_queues p ! 0) \<and> pl_workers p ! 0 \<noteq> Returned)
        \<and> (if pl_coord p = Opening then errs = [] \<and> in_flight p = []
           else errs @ filter (Match e m) (in_flight p) = filter (Match e m) all))"

text \<open>
  One log with one pattern matcher over a file of four lines, and a run of it to the
  end: each line is read, sent, received and matched in turn; then the queue is closed,
  the worker returns, the report is sent and \<^verbatim>\<open>main\<close> returns.
\<close>

definition single_conf :: Config where
  "single_conf =
     \<lparr>Mailgun = \<lparr>Domain = ''example.org'', ApiKey = ''key'', PublicApiKey = ''pubkey''\<rparr>,
      Logs = [(''app'', \<lparr>Path = ''/var/log/app.log'', Matchers = [(''regexp'', ''ERROR'')]\<rparr>)]\<rparr>"

definition single_file :: logfile where
  "single_file =
     \<lparr>scan_lines = [''ok'', ''ERROR: disk full'', ''ERROR: timeout'', ''fine''], scan_err = None\<rparr>"

definition single_schedule :: "choice list" where
  "single_schedule =
     [RunPipeline 0 0, RunPipeline 0 0, RunMatcher 0 0,
      RunPipeline 0 0, RunPipeline 0 0, RunPipeline 0 0, RunPipeline 0 0, RunMatcher 0 0, RunMatcher 0 0,
      RunPipeline 0 0, RunPipeline 0 0, RunPipeline 0 0, RunPipeline 0 0, RunMatcher 0 0, RunMatcher 0 0,
      RunPipeline 0 0, RunPipeline 0 0, RunPipeline 0 0, RunPipeline 0 0, RunMatcher 0 0, RunMatcher 0 0,
      RunPipeline 0 0, RunPipeline 0 0, RunPipeline 0 0, RunPipeline 0 0, RunMatcher 0 0, RunMatcher 0 0,
      RunPipeline 0 0, RunPipeline 0 0, RunPipeline 0 0, RunMatcher 0 0,
      RunPipeline 0 0, RunPipeline 0 0, RunPipeline 0 0, RunMain, RunMain]"

section \<open>Properties\<close>

subsection \<open>Strings\<close>

lemma HasPrefix_iff: "HasPrefix s p \<longleftrightarrow> (\<exists>r. s = p @ r)"
  by (induction s p rule: HasPrefix.induct) auto

lemma Contains_iff: "Contains s sub \<longleftrightarrow> (\<exists>p r. s = p @ sub @ r)"
proof (induction s)
  case Nil
  show ?case by auto
next
  case (Cons c s)
  show ?case
  proof
    assume "Contains (c # s) sub"
    then consider "HasPrefix (c # s) sub" | "Contains s sub" by auto
    then show "\<exists>p r. c # s = p @ sub @ r"
    proof cases
      case 1
      then obtain r where "c # s = sub @ r" by (auto simp: HasPrefix_iff)
      then have "c # s = [] @ sub @ r" by simp
      then show ?thesis by blast
    next
      case 2
      then obtain p r where "s = p @ sub @ r" using Cons.IH by blast
      then have "c # s = (c # p) @ sub @ r" by simp
      then show ?thesis by blast
    qed
  next
    assume "\<exists>p r. c # s = p @ sub @ r"
    then obtain p r where eq: "c # s = p @ sub @ r" by blast
    show "Contains (c # s) sub"
    proof (cases p)
      case Nil
      with eq have "HasPrefix (c # s) sub" by (auto simp: HasPrefix_iff)
      then show ?thesis by simp
    next
      case (Cons a p')
      with eq have "s = p' @ sub @ r" by simp
      then have "Contains s sub" using Cons.IH by blast
      then show ?thesis by simp
    qed
  qed
qed

lemma Contains_empty: "Contains s []"
  by (cases s) auto

subsection \<open>The collector, one call at a time\<close>

lemma index_map_simps [simp]:
  "index_map m name = [] \<longleftrightarrow> m name = None \<or> m name = Some []"
  "m name = None \<Longrightarrow> index_map m name = []"
  "m name = Some l \<Longrightarrow> index_map m name = l"
  by (auto simp: index_map_def split: option.splits)

lemma errors_Add:
  "errors (Add c name message) = (errors c)(name \<mapsto> Errors c name @ [message])"
  by (auto simp: Add_def Errors_def Let_def index_map_def)

lemma Add_credentials [simp]:
  "domain (Add c name message) = domain c"
  "apiKey (Add c name message) = apiKey c"
  "publicApiKey (Add c name message) = publicApiKey c"
  by (simp_all add: Add_def Let_def)

lemma Errors_Add_same [simp]: "Errors (Add c name message) name = Errors c name @ [message]"
  by (simp add: errors_Add Errors_def)

lemma Errors_Add_other [simp]:
  "other \<noteq> name \<Longrightarrow> Errors (Add c name message) other = Errors c other"
  by (simp add: errors_Add Errors_def index_map_def)

lemma HasErrors_Add [simp]:
  "HasErrors (Add c name message) other \<longleftrightarrow> other = name \<or> HasErrors c other"
  by (simp add: errors_Add HasErrors_def)

lemma fst_Send [simp]: "fst (Send e c name w) = c"
  by (simp add: Send_def Let_def)

lemma Send_no_errors: "\<not> HasErrors c name \<Longrightarrow> Send e c name w = (c, w)"
  by (simp add: Send_def)

lemma sent_Send:
  "sent (snd (Send e c name w)) = (if HasErrors c name then sent w @ [report c name] else sent w)"
  by (simp add: Send_def Let_def split: option.splits)

text \<open>
  C10. \<^verbatim>\<open>Add(name, message)\<close> appends \<open>message\<close> at the end of the list of \<open>name\<close>,
  which keeps every earlier entry in its place, and leaves the list of every other
  name, present or absent, as it was; the credentials are not touched either.
\<close>

theorem Add_frame:
  "Errors (Add c name message) name = Errors c name @ [message]
   \<and> errors (Add c name message) name = Some (Errors c name @ [message])
   \<and> (\<forall>other. other \<noteq> name \<longrightarrow> errors (Add c name message) other = errors c other)
   \<and> domain (Add c name message) = domain c
   \<and> apiKey (Add c name message) = apiKey c
   \<and> publicApiKey (Add c name message) = publicApiKey c"
  by (simp add: errors_Add)

theorem Add_frame_witness:
  "Errors (Add (Add (NewCollector [] [] []) ''app'' ''one'') ''app'' ''two'') ''app''
     = [''one'', ''two'']
   \<and> errors (Add (Add (NewCollector [] [] []) ''app'' ''one'') ''app'' ''two'') ''db''
     = errors (Add (NewCollector [] [] []) ''app'' ''one'') ''db''
   \<and> errors (Add (NewCollector [] [] []) ''app'' ''one'') ''db'' = None"
  using Add_frame [of "Add (NewCollector [] [] []) ''app'' ''one''" "''app''" "''two''"]
  by (simp add: errors_Add NewCollector_def Errors_def)

subsection \<open>The substring matcher\<close>

lemma substringMatcher_Match_iff:
  "Match e (NewSubstringMatcher criteria) line \<longleftrightarrow> (\<exists>p r. criteria = p @ line @ r)"
  by (simp add: NewSubstringMatcher_def Contains_iff)

text \<open>
  C1. The substring matcher is to accept a line exactly when the criteria occur in the
  line. \<^verbatim>\<open>Match\<close> passes its arguments to \<^verbatim>\<open>strings.Contains\<close> the other way round,
  so it asks whether the line occurs in the criteria: the line
  \<^verbatim>\<open>ERROR: disk full\<close> contains the criteria \<^verbatim>\<open>disk full\<close> and is rejected, and the
  line \<^verbatim>\<open>disk\<close>, which does not contain the criteria, is accepted.
\<close>

theorem substringMatcher_Match_reversed:
  "Contains ''ERROR: disk full'' ''disk full''
   \<and> \<not> Match e (NewSubstringMatcher ''disk full'') ''ERROR: disk full''
   \<and> \<not> Contains ''disk'' ''disk full''
   \<and> Match e (NewSubstringMatcher ''disk full'') ''disk''"
  by (simp add: NewSubstringMatcher_def)

subsection \<open>The worker's loop\<close>

lemma process_line_errors:
  "errors (process_line e m name line c) =
     (if Match e m line then (errors c)(name \<mapsto> Errors c name @ [line]) else errors c)"
  by (simp add: process_line_def errors_Add)

lemma Errors_process_line:
  "Errors (process_line e m name line c) name = Errors c name @ filter (Match e m) [line]"
  by (simp add: process_line_def)

lemma Errors_range_queue:
  "Errors (range_queue e m name queue c) name = Errors c name @ filter (Match e m) queue"
  by (induction queue arbitrary: c) (simp_all add: Errors_process_line)

lemma count_list_append: "count_list (xs @ ys) x = count_list xs x + count_list ys x"
  by (induction xs) simp_all

lemma count_list_filter: "P x \<Longrightarrow> count_list (filter P xs) x = count_list xs x"
  by (induction xs) simp_all

text \<open>
  C9. Whatever its criteria, a substring matcher accepts the empty line, since
  \<^verbatim>\<open>strings.Contains(criteria, "")\<close> is true. So the body of the worker's loop
  records a blank line, and the worker of a substring matcher records the lines of its
  queue that occur in the criteria, among them every blank line: the list of its source
  gains as many empty entries as the queue delivers blank lines.
\<close>

theorem substringMatcher_Match_blank:
  "Match e (NewSubstringMatcher criteria) []
   \<and> process_line e (NewSubstringMatcher criteria) name [] c = Add c name []
   \<and> Errors (range_queue e (NewSubstringMatcher criteria) name queue c) name
       = Errors c name @ filter (\<lambda>line. Contains criteria line) queue
   \<and> count_list (Errors (range_queue e (NewSubstringMatcher criteria) name queue c) name) []
       = count_list (Errors c name) [] + count_list queue []"
proof -
  have m: "Match e (NewSubstringMatcher criteria) = (\<lambda>line. Contains criteria line)"
    by (rule ext) (simp add: NewSubstringMatcher_def)
  have blank: "Contains criteria []"
    by (rule Contains_empty)
  show ?thesis
    by (simp add: Errors_range_queue m blank count_list_append count_list_filter process_line_def)
qed

subsection \<open>Histories of collector calls\<close>

lemma errors_do_call:
  "errors (fst (do_call e x (c, w))) name =
     (if added [x] name = [] then errors c name
      else Some (index_map (errors c) name @ added [x] name))"
  by (cases x) (simp_all add: errors_Add Errors_def)

lemma added_Cons: "added (x # cs) name = added [x] name @ added cs name"
  by (cases x) simp_all

lemma errors_do_calls:
  "errors (fst (do_calls e cs (c, w))) name =
     (if added cs name = [] then errors c name
      else Some (index_map (errors c) name @ added cs name))"
proof (induction cs arbitrary: c w)
  case Nil
  show ?case by simp
next
  case (Cons x cs)
  obtain c' w' where step: "do_call e x (c, w) = (c', w')"
    by (cases "do_call e x (c, w)")
  have c': "errors c' name =
     (if added [x] name = [] then errors c name
      else Some (index_map (errors c) name @ added [x] name))"
    using errors_do_call [of e x c w name] step by simp
  have "errors (fst (do_calls e (x # cs) (c, w))) name = errors (fst (do_calls e cs (c', w'))) name"
    by (simp add: step)
  also have "\<dots> = (if added cs name = [] then errors c' name
      else Some (index_map (errors c') name @ added cs name))"
    by (rule Cons.IH)
  also have "\<dots> = (if added (x # cs) name = [] then errors c name
      else Some (index_map (errors c) name @ added (x # cs) name))"
    unfolding added_Cons [of x cs name] index_map_def c' by simp
  finally show ?case .
qed

lemma do_call_keeps_nonempty:
  "errors c name \<noteq> Some [] \<Longrightarrow> errors (fst (do_call e x (c, w))) name \<noteq> Some []"
  by (simp add: errors_do_call index_map_def split: option.splits)

lemma errors_history:
  "errors (fst (do_calls e cs (NewCollector d a p, w))) name =
     (if added cs name = [] then None else Some (added cs name))"
  by (simp add: errors_do_calls NewCollector_def index_map_def)

text \<open>
  C5. In every state of the collector, that is after any sequence of calls of its
  methods on a new collector, \<open>name\<close> is a key of the map exactly when the sequence
  holds an \<^verbatim>\<open>Add\<close> for \<open>name\<close>; no key maps to the empty list; and the list of
  \<open>name\<close> is the messages added for it, so that an absent key means none was added.
\<close>

theorem collector_key_invariant:
  "(HasErrors (fst (do_calls e cs (NewCollector d a p, w))) name \<longleftrightarrow> added cs name \<noteq> [])
   \<and> errors (fst (do_calls e cs (NewCollector d a p, w))) name \<noteq> Some []
   \<and> Errors (fst (do_calls e cs (NewCollector d a p, w))) name = added cs name"
  by (simp add: HasErrors_def Errors_def errors_history)

text \<open>
  C6. A name for which the history of a collector holds no \<^verbatim>\<open>Add\<close> has no errors,
  and \<^verbatim>\<open>Send\<close> for it hands no mail to Mailgun, writes no log line and returns the
  collector as it was.
\<close>

theorem Send_without_matches:
  assumes "added cs name = []"
    and "do_calls e cs (NewCollector d a p, w0) = (c, w)"
  shows "\<not> HasErrors c name \<and> Errors c name = [] \<and> Send e c name w = (c, w)"
proof -
  have "errors c name = None"
    using errors_history [of e cs d a p w0 name] assms by simp
  then show ?thesis
    by (simp add: HasErrors_def Errors_def Send_def)
qed

theorem Send_without_matches_witness:
  "added [CallAdd ''app'' ''ERROR: x'', CallSend ''app''] ''db'' = []
   \<and> \<not> HasErrors (Add (NewCollector [] [] []) ''app'' ''ERROR: x'') ''db''
   \<and> Send (example_env []) (Add (NewCollector [] [] []) ''app'' ''ERROR: x'') ''db''
        \<lparr>sent = [report (Add (NewCollector [] [] []) ''app'' ''ERROR: x'') ''app''],
         logged = [''Sending: ERROR: x'']\<rparr>
      = (Add (NewCollector [] [] []) ''app'' ''ERROR: x'',
         \<lparr>sent = [report (Add (NewCollector [] [] []) ''app'' ''ERROR: x'') ''app''],
          logged = [''Sending: ERROR: x'']\<rparr>)"
  using Send_without_matches [of "[CallAdd ''app'' ''ERROR: x'', CallSend ''app'']" "''db''"
      "example_env []" "[]" "[]" "[]" "\<lparr>sent = [], logged = []\<rparr>"
      "Add (NewCollector [] [] []) ''app'' ''ERROR: x''"
      "\<lparr>sent = [report (Add (NewCollector [] [] []) ''app'' ''ERROR: x'') ''app''],
        logged = [''Sending: ERROR: x'']\<rparr>"]
  by (simp add: Send_def HasErrors_def errors_Add Errors_def NewCollector_def example_env_def)

subsection \<open>The report\<close>

lemma split_lines_append:
  "CHR 0x0A \<notin> set x \<Longrightarrow> split_lines cur (x @ rest) = split_lines (cur @ x) rest"
  by (induction x arbitrary: cur) auto

lemma split_lines_Join:
  "ls \<noteq> [] \<Longrightarrow> \<forall>l\<in>set ls. is_line l \<Longrightarrow>
     split_lines cur (Join ls [CHR 0x0A]) = (cur @ hd ls) # tl ls"
proof (induction ls arbitrary: cur)
  case Nil
  then show ?case by simp
next
  case (Cons x ls)
  have x: "CHR 0x0A \<notin> set x"
    using Cons.prems by (simp add: is_line_def)
  show ?case
  proof (cases ls)
    case Nil
    have "split_lines cur (x @ []) = split_lines (cur @ x) []"
      using x by (rule split_lines_append)
    then show ?thesis using Nil by simp
  next
    case (Cons y zs)
    have "split_lines cur (x @ CHR 0x0A # Join ls [CHR 0x0A])
            = split_lines (cur @ x) (CHR 0x0A # Join ls [CHR 0x0A])"
      using x by (rule split_lines_append)
    also have "\<dots> = (cur @ x) # split_lines [] (Join ls [CHR 0x0A])"
      by simp
    also have "split_lines [] (Join ls [CHR 0x0A]) = ([] @ hd ls) # tl ls"
      using Cons.prems Cons by (intro Cons.IH) simp_all
    finally show ?thesis using Cons by simp
  qed
qed

lemma Lines_Join: "ls \<noteq> [] \<Longrightarrow> \<forall>l\<in>set ls. is_line l \<Longrightarrow> Lines (Join ls [CHR 0x0A]) = ls"
  by (simp add: Lines_def split_lines_Join)

text \<open>
  C4. For a name with at least one recorded match, \<^verbatim>\<open>Send\<close> hands Mailgun exactly one
  message more. Its body is the entries recorded for the name, which are the messages
  of the \<^verbatim>\<open>Add\<close> calls for it in call order, joined by line feeds; the number of
  entries joined is the number of those calls; and when each entry is a line, the lines
  of the body are the entries, one line for each call.
\<close>

theorem Send_aggregate:
  assumes "added cs name \<noteq> []"
    and "do_calls e cs (NewCollector d a p, w0) = (c, w)"
  shows "HasErrors c name
    \<and> sent (snd (Send e c name w)) = sent w @ [report c name]
    \<and> subject (report c name) = ''Log Errors: '' @ name
    \<and> text_body (report c name) = Join (added cs name) [CHR 0x0A]
    \<and> length (Errors c name) = length (added cs name)
    \<and> ((\<forall>l\<in>set (added cs name). is_line l) \<longrightarrow>
         Lines (text_body (report c name)) = added cs name
         \<and> length (Lines (text_body (report c name))) = length (added cs name))"
proof -
  have errs: "errors c name = Some (added cs name)"
    using errors_history [of e cs d a p w0 name] assms by simp
  then have has: "HasErrors c name"
    by (simp add: HasErrors_def)
  have body: "text_body (report c name) = Join (added cs name) [CHR 0x0A]"
    using errs by (simp add: report_def)
  have "Lines (text_body (report c name)) = added cs name"
    if "\<forall>l\<in>set (added cs name). is_line l"
    unfolding body using assms(1) that by (rule Lines_Join)
  then show ?thesis
    using has errs body by (simp add: sent_Send Errors_def report_def)
qed

theorem Send_aggregate_witness:
  "added [CallAdd ''app'' ''ERROR: a'', CallAdd ''db'' ''x'', CallAdd ''app'' ''ERROR: b''] ''app''
     = [''ERROR: a'', ''ERROR: b'']
   \<and> sent (snd (Send (example_env [])
        (Add (Add (Add (NewCollector [] [] []) ''app'' ''ERROR: a'') ''db'' ''x'') ''app'' ''ERROR: b'')
        ''app'' \<lparr>sent = [], logged = []\<rparr>))
     = [\<lparr>from_addr = developers, subject = ''Log Errors: app'',
         text_body = ''ERROR: a'' @ [CHR 0x0A] @ ''ERROR: b'', recipients = [developers]\<rparr>]
   \<and> Lines (''ERROR: a'' @ [CHR 0x0A] @ ''ERROR: b'') = [''ERROR: a'', ''ERROR: b'']"
  using Send_aggregate [of
      "[CallAdd ''app'' ''ERROR: a'', CallAdd ''db'' ''x'', CallAdd ''app'' ''ERROR: b'']" "''app''"
      "example_env []" "[]" "[]" "[]" "\<lparr>sent = [], logged = []\<rparr>"
      "Add (Add (Add (NewCollector [] [] []) ''app'' ''ERROR: a'') ''db'' ''x'') ''app'' ''ERROR: b''"
      "\<lparr>sent = [], logged = []\<rparr>"]
  by (simp add: is_line_def report_def errors_Add Errors_def NewCollector_def)

subsection \<open>Steps and runs\<close>

lemma exec_append:
  "exec e (xs @ ys) s = (case exec e xs s of None \<Rightarrow> None | Some s' \<Rightarrow> exec e ys s')"
  by (induction xs arbitrary: s) (simp_all split: option.splits)

lemma exec_invariant:
  assumes "exec e chs s0 = Some s" and "P s0"
    and "\<And>s ch s'. P s \<Longrightarrow> fire e ch s = Some s' \<Longrightarrow> P s'"
  shows "P s"
  using assms(1,2)
proof (induction chs arbitrary: s0)
  case Nil
  then show ?case by simp
next
  case (Cons ch chs)
  then obtain s1 where s1: "fire e ch s0 = Some s1" and rest: "exec e chs s1 = Some s"
    by (auto split: option.splits)
  have "P s1" using Cons.prems(2) s1 by (rule assms(3))
  with rest show ?case by (rule Cons.IH)
qed

lemma reachable_invariant:
  assumes "reachable e conf s" and "P (main_start conf)"
    and "\<And>s ch s'. P s \<Longrightarrow> fire e ch s = Some s' \<Longrightarrow> P s'"
  shows "P s"
proof -
  from assms(1) obtain chs where "exec e chs (main_start conf) = Some s"
    by (auto simp: reachable_def)
  then show ?thesis using assms(2,3) by (rule exec_invariant)
qed

lemma reachable_start: "reachable e conf (main_start conf)"
  unfolding reachable_def by (rule exI [of _ "[]"]) simp

lemma reachable_fire: "reachable e conf s \<Longrightarrow> fire e ch s = Some s' \<Longrightarrow> reachable e conf s'"
  unfolding reachable_def
proof (elim exE)
  fix chs
  assume "exec e chs (main_start conf) = Some s" and "fire e ch s = Some s'"
  then have "exec e (chs @ [ch]) (main_start conf) = Some s'"
    by (simp add: exec_append)
  then show "\<exists>chs. exec e chs (main_start conf) = Some s'" ..
qed

lemma fire_cases [consumes 1, case_names Main Pipeline Matcher]:
  assumes "fire e ch s = Some s'"
    and "\<lbrakk>ch = RunMain; sh_exit (pr_shared s) = None; main_step s = Some s'\<rbrakk> \<Longrightarrow> R"
    and "\<And>i k p sh. \<lbrakk>ch = RunPipeline i k; sh_exit (pr_shared s) = None; i < length (pr_pipelines s);
           startPipeline_step e (length (pr_pipelines s)) k (pr_shared s) (pr_pipelines s ! i) = Some (p, sh);
           s' = s\<lparr>pr_shared := sh, pr_pipelines := (pr_pipelines s)[i := p]\<rparr>\<rbrakk> \<Longrightarrow> R"
    and "\<And>i j p sh. \<lbrakk>ch = RunMatcher i j; sh_exit (pr_shared s) = None; i < length (pr_pipelines s);
           startMatcher_step e j (pr_shared s) (pr_pipelines s ! i) = Some (p, sh);
           s' = s\<lparr>pr_shared := sh, pr_pipelines := (pr_pipelines s)[i := p]\<rparr>\<rbrakk> \<Longrightarrow> R"
  shows R
proof (cases ch)
  case RunMain
  with assms(1) show ?thesis
    by (intro assms(2)) (auto simp: fire_def split: if_splits)
next
  case (RunPipeline i k)
  with assms(1) show ?thesis
    by (auto simp: fire_def put_pipeline_def split: if_splits option.splits intro: assms(3))
next
  case (RunMatcher i j)
  with assms(1) show ?thesis
    by (auto simp: fire_def put_pipeline_def split: if_splits option.splits intro: assms(4))
qed

lemma fire_exited: "sh_exit (pr_shared s) \<noteq> None \<Longrightarrow> fire e ch s = None"
  by (simp add: fire_def)

subsection \<open>The steps of the two kinds of goroutine, case by case\<close>

lemma step_Spawning:
  "pl_coord p = Spawning \<Longrightarrow> startPipeline_step e n k sh p = Some (p', sh') \<Longrightarrow>
     sh' = sh \<and>
     p' = p\<lparr>pl_queues := map (\<lambda>m. make_chan) (Matchers (pl_logc p)),
            pl_workers := map (\<lambda>m. Starting (fst m) (snd m)) (Matchers (pl_logc p)),
            pl_wg := int (length (Matchers (pl_logc p))),
            pl_coord := Opening\<rparr>"
  by (auto simp: startPipeline_step_def)

lemma step_Opening:
  "pl_coord p = Opening \<Longrightarrow> startPipeline_step e n k sh p = Some (p', sh') \<Longrightarrow>
     (\<exists>err. osOpen e (Path (pl_logc p)) = Inl err \<and> p' = p \<and> sh' = log_Fatal err sh)
     \<or> (\<exists>f. osOpen e (Path (pl_logc p)) = Inr f \<and> sh' = sh
            \<and> p' = p\<lparr>pl_scanner := f, pl_coord := Scanning\<rparr>)"
  by (auto simp: startPipeline_step_def split: sum.splits)

lemma step_Scanning:
  "pl_coord p = Scanning \<Longrightarrow> startPipeline_step e n k sh p = Some (p', sh') \<Longrightarrow>
     (\<exists>line rest. scan_lines (pl_scanner p) = line # rest \<and> sh' = sh
        \<and> p' = p\<lparr>pl_scanner := (pl_scanner p)\<lparr>scan_lines := rest\<rparr>, pl_round := [],
                  pl_coord := Broadcasting line (queue_keys p)\<rparr>)
     \<or> (\<exists>err. scan_lines (pl_scanner p) = [] \<and> scan_err (pl_scanner p) = Some err
            \<and> p' = p \<and> sh' = log_Fatal err sh)
     \<or> (scan_lines (pl_scanner p) = [] \<and> scan_err (pl_scanner p) = None \<and> sh' = sh
            \<and> p' = p\<lparr>pl_coord := Closing (queue_keys p)\<rparr>)"
  by (auto simp: startPipeline_step_def split: list.splits option.splits)

lemma step_Broadcasting:
  "pl_coord p = Broadcasting line pending \<Longrightarrow> startPipeline_step e n k sh p = Some (p', sh') \<Longrightarrow>
     sh' = sh \<and>
     ((pending = [] \<and> p' = p\<lparr>pl_rounds := pl_rounds p @ [pl_round p], pl_coord := Scanning\<rparr>)
      \<or> (k \<in> set pending \<and> p' = p\<lparr>pl_coord := Sending line k (remove1 k pending)\<rparr>))"
  by (auto simp: startPipeline_step_def split: if_splits)

lemma step_Sending:
  "pl_coord p = Sending line i pending \<Longrightarrow> startPipeline_step e n k sh p = Some (p', sh') \<Longrightarrow>
     i < length (pl_queues p) \<and>
     ((closed (pl_queues p ! i) \<and> p' = p \<and> sh' = panic sh)
      \<or> (\<not> closed (pl_queues p ! i) \<and> buf (pl_queues p ! i) = [] \<and> sh' = sh
          \<and> p' = p\<lparr>pl_queues := (pl_queues p)[i := (pl_queues p ! i)\<lparr>buf := [line]\<rparr>],
                    pl_round := pl_round p @ [i],
                    pl_coord := Broadcasting line pending\<rparr>))"
  by (auto simp: startPipeline_step_def Let_def queue_cap_def split: if_splits)

lemma step_Closing:
  "pl_coord p = Closing pending \<Longrightarrow> startPipeline_step e n k sh p = Some (p', sh') \<Longrightarrow>
     (pending = [] \<and> sh' = sh \<and> p' = p\<lparr>pl_coord := Waiting\<rparr>)
     \<or> (k \<in> set pending \<and> k < length (pl_queues p) \<and> closed (pl_queues p ! k)
          \<and> p' = p \<and> sh' = panic sh)
     \<or> (k \<in> set pending \<and> k < length (pl_queues p) \<and> sh' = sh
          \<and> p' = p\<lparr>pl_queues := (pl_queues p)[k := (pl_queues p ! k)\<lparr>closed := True\<rparr>],
                    pl_coord := Closing (remove1 k pending)\<rparr>)"
  by (auto simp: startPipeline_step_def Let_def split: if_splits)

lemma step_Waiting:
  "pl_coord p = Waiting \<Longrightarrow> startPipeline_step e n k sh p = Some (p', sh') \<Longrightarrow>
     pl_wg p = 0 \<and> sh' = sh \<and> p' = p\<lparr>pl_coord := Reporting\<rparr>"
  by (auto simp: startPipeline_step_def split: if_splits)

lemma step_Reporting:
  assumes "pl_coord p = Reporting" and "startPipeline_step e n k sh p = Some (p', sh')"
  shows "p' = p\<lparr>pl_coord := Signalling\<rparr>
     \<and> sh' = sh\<lparr>sh_sink := snd (Send e (sh_collector sh) (pl_name p) (sh_sink sh))\<rparr>"
proof -
  obtain c w where S: "Send e (sh_collector sh) (pl_name p) (sh_sink sh) = (c, w)"
    by (cases "Send e (sh_collector sh) (pl_name p) (sh_sink sh)")
  have "c = sh_collector sh"
    using fst_Send [of e "sh_collector sh" "pl_name p" "sh_sink sh"] S by simp
  with assms S show ?thesis
    by (simp add: startPipeline_step_def)
qed

lemma step_Signalling:
  "pl_coord p = Signalling \<Longrightarrow> startPipeline_step e n k sh p = Some (p', sh') \<Longrightarrow>
     sh_done sh < n \<and> p' = p\<lparr>pl_coord := Finished\<rparr> \<and> sh' = sh\<lparr>sh_done := sh_done sh + 1\<rparr>"
  by (auto simp: startPipeline_step_def split: if_splits)

lemma step_Finished:
  "pl_coord p = Finished \<Longrightarrow> startPipeline_step e n k sh p = None"
  by (simp add: startPipeline_step_def)

lemma wg_Done_cases:
  "wg_Done j sh p = (p', sh') \<Longrightarrow>
     (pl_wg p < 1 \<and> p' = p \<and> sh' = panic sh)
     \<or> (1 \<le> pl_wg p \<and> sh' = sh
         \<and> p' = p\<lparr>pl_workers := (pl_workers p)[j := Returned], pl_wg := pl_wg p - 1\<rparr>)"
  by (auto simp: wg_Done_def split: if_splits)

lemma startMatcher_step_cases [consumes 1, case_names Panic Compiled Substring Unknown Receive Drained Match]:
  assumes "startMatcher_step e j sh p = Some (p', sh')"
  obtains
    (Panic) criteria where "pl_workers p ! j = Starting ''regexp'' criteria"
      "NewRegexpMatcher e criteria = None" "p' = p" "sh' = panic sh"
  | (Compiled) criteria m where "pl_workers p ! j = Starting ''regexp'' criteria"
      "NewRegexpMatcher e criteria = Some m" "sh' = sh"
      "p' = p\<lparr>pl_workers := (pl_workers p)[j := Receiving m]\<rparr>"
  | (Substring) criteria where "pl_workers p ! j = Starting ''substring'' criteria" "sh' = sh"
      "p' = p\<lparr>pl_workers := (pl_workers p)[j := Receiving (NewSubstringMatcher criteria)]\<rparr>"
  | (Unknown) flavour criteria where "pl_workers p ! j = Starting flavour criteria"
      "flavour \<noteq> ''regexp''" "flavour \<noteq> ''substring''"
      "wg_Done j (log_Printf (''Error: unknown matcher '' @ flavour) sh) p = (p', sh')"
  | (Receive) m line rest where "pl_workers p ! j = Receiving m"
      "buf (pl_queues p ! j) = line # rest" "sh' = sh"
      "p' = p\<lparr>pl_queues := (pl_queues p)[j := (pl_queues p ! j)\<lparr>buf := rest\<rparr>],
                pl_workers := (pl_workers p)[j := Matching m line]\<rparr>"
  | (Drained) m where "pl_workers p ! j = Receiving m" "buf (pl_queues p ! j) = []"
      "closed (pl_queues p ! j)" "wg_Done j sh p = (p', sh')"
  | (Match) m line where "pl_workers p ! j = Matching m line"
      "p' = p\<lparr>pl_workers := (pl_workers p)[j := Receiving m]\<rparr>"
      "sh' = sh\<lparr>sh_collector := process_line e m (pl_name p) line (sh_collector sh)\<rparr>"
proof (cases "pl_workers p ! j")
  case (Starting flavour criteria)
  with assms show ?thesis
    by (auto simp: startMatcher_step_def split: if_splits option.splits
        intro: Panic Compiled Substring Unknown)
next
  case (Receiving m)
  with assms show ?thesis
    by (auto simp: startMatcher_step_def Let_def split: if_splits list.splits
        intro: Receive Drained)
next
  case (Matching m line)
  with assms show ?thesis
    by (auto simp: startMatcher_step_def split: if_splits intro: Match)
next
  case Returned
  with assms show ?thesis
    by (auto simp: startMatcher_step_def split: if_splits)
qed

lemma startMatcher_step_index:
  "startMatcher_step e j sh p = Some (p', sh') \<Longrightarrow> j < length (pl_workers p) \<and> j < length (pl_queues p)"
  by (auto simp: startMatcher_step_def split: if_splits)

subsection \<open>Fatal errors\<close>

text \<open>
  C7. When the coordinator of a log runs \<^verbatim>\<open>os.Open\<close> and it fails, or when its scanner
  has stopped with an error, the step it takes is \<^verbatim>\<open>log.Fatal\<close>: whatever the key its
  iteration would visit and whatever the state of every other goroutine, of this log or
  of another, the error is logged, the process has exit status 1, and no goroutine
  takes another step. The coordinator has no other step there.
\<close>

theorem startPipeline_io_error_fatal:
  assumes "sh_exit (pr_shared s) = None"
    and "i < length (pr_pipelines s)"
    and "(pl_coord (pr_pipelines s ! i) = Opening
            \<and> osOpen e (Path (pl_logc (pr_pipelines s ! i))) = Inl err)
         \<or> (pl_coord (pr_pipelines s ! i) = Scanning
            \<and> scan_lines (pl_scanner (pr_pipelines s ! i)) = []
            \<and> scan_err (pl_scanner (pr_pipelines s ! i)) = Some err)"
  shows "\<exists>s'. fire e (RunPipeline i k) s = Some s'
           \<and> sh_exit (pr_shared s') = Some 1
           \<and> logged (sh_sink (pr_shared s')) = logged (sh_sink (pr_shared s)) @ [err]
           \<and> sent (sh_sink (pr_shared s')) = sent (sh_sink (pr_shared s))
           \<and> (\<forall>ch. fire e ch s' = None)"
proof -
  have step: "startPipeline_step e (length (pr_pipelines s)) k (pr_shared s) (pr_pipelines s ! i)
                = Some (pr_pipelines s ! i, log_Fatal err (pr_shared s))"
    using assms(3) by (auto simp: startPipeline_step_def)
  define s' where "s' = s\<lparr>pr_shared := log_Fatal err (pr_shared s),
                            pr_pipelines := (pr_pipelines s)[i := pr_pipelines s ! i]\<rparr>"
  have fire: "fire e (RunPipeline i k) s = Some s'"
    using assms(1,2) step by (simp add: fire_def put_pipeline_def s'_def)
  have exit: "sh_exit (pr_shared s') = Some 1"
    by (simp add: s'_def log_Fatal_def)
  have "fire e ch s' = None" for ch
    using exit by (simp add: fire_exited)
  with fire exit show ?thesis
    by (auto simp: s'_def log_Fatal_def)
qed

theorem startPipeline_io_error_fatal_witness:
  "map_option (\<lambda>s. pl_coord (pr_pipelines s ! 0))
       (exec (example_env []) [RunPipeline 0 0] (main_start missing_conf)) = Some Opening
   \<and> osOpen (example_env []) ''/var/log/app.log''
       = Inl ''open /var/log/app.log: no such file or directory''
   \<and> map_option (\<lambda>s. (sh_exit (pr_shared s), sh_sink (pr_shared s)))
       (exec (example_env []) [RunPipeline 0 0, RunPipeline 0 0] (main_start missing_conf))
     = Some (Some 1, \<lparr>sent = [], logged = [''open /var/log/app.log: no such file or directory'']\<rparr>)
   \<and> exec (example_env []) [RunPipeline 0 0, RunPipeline 0 0, RunMatcher 0 0] (main_start missing_conf)
     = None"
  using startPipeline_io_error_fatal [of
      "the (exec (example_env []) [RunPipeline 0 0] (main_start missing_conf))" 0 "example_env []"
      "''open /var/log/app.log: no such file or directory''" 0]
  by (simp add: missing_conf_def main_start_def startPipeline_def fire_def startPipeline_step_def
      put_pipeline_def example_env_def log_Fatal_def NewCollector_def)

subsection \<open>Invariants of a pipeline\<close>

lemma reachable_exec: "exec e chs (main_start conf) = Some s \<Longrightarrow> reachable e conf s"
  by (auto simp: reachable_def)

lemma visits_all_pick:
  "k \<in> set pending \<Longrightarrow> visits_all (r @ pending) n \<Longrightarrow> visits_all (r @ k # remove1 k pending) n"
  by (auto simp: visits_all_def)

lemma wg_Done_facts:
  "wg_Done j sh p = (p', sh') \<Longrightarrow>
     pl_name p' = pl_name p \<and> pl_logc p' = pl_logc p \<and> pl_coord p' = pl_coord p
     \<and> pl_queues p' = pl_queues p \<and> pl_round p' = pl_round p \<and> pl_rounds p' = pl_rounds p
     \<and> pl_scanner p' = pl_scanner p
     \<and> length (pl_workers p') = length (pl_workers p)
     \<and> sh_collector sh' = sh_collector sh"
  by (auto simp: wg_Done_def panic_def split: if_splits)

lemma startPipeline_ok: "pipeline_ok name logc (startPipeline name logc)"
  by (simp add: pipeline_ok_def startPipeline_def)

lemma startPipeline_step_ok:
  assumes "pipeline_ok name logc p" and "startPipeline_step e n k sh p = Some (p', sh')"
  shows "pipeline_ok name logc p'"
proof (cases "pl_coord p")
  case (Broadcasting line pending)
  with assms show ?thesis
    by (auto simp: startPipeline_step_def pipeline_ok_def visits_all_pick split: if_splits)
next
  case (Sending line i pending)
  with assms show ?thesis
    by (auto simp: startPipeline_step_def pipeline_ok_def Let_def split: if_splits)
next
  case Scanning
  with assms show ?thesis
    by (auto simp: startPipeline_step_def pipeline_ok_def queue_keys_def visits_all_def
        split: list.splits option.splits)
next
  case (Closing pending)
  with assms show ?thesis
    by (auto simp: startPipeline_step_def pipeline_ok_def Let_def split: if_splits)
qed (use assms in \<open>auto simp: startPipeline_step_def pipeline_ok_def
      split: sum.splits if_splits prod.splits\<close>)

lemma startMatcher_step_frame:
  assumes "startMatcher_step e j sh p = Some (p', sh')"
  shows "pl_name p' = pl_name p \<and> pl_logc p' = pl_logc p \<and> pl_coord p' = pl_coord p
     \<and> pl_round p' = pl_round p \<and> pl_rounds p' = pl_rounds p \<and> pl_scanner p' = pl_scanner p
     \<and> length (pl_queues p') = length (pl_queues p)
     \<and> length (pl_workers p') = length (pl_workers p)"
proof (cases "pl_workers p ! j")
  case (Starting flavour criteria)
  with assms show ?thesis
    by (auto simp: startMatcher_step_def wg_Done_def split: if_splits option.splits)
next
  case (Receiving m)
  with assms show ?thesis
    by (auto simp: startMatcher_step_def wg_Done_def Let_def split: if_splits list.splits)
next
  case (Matching m line)
  with assms show ?thesis
    by (auto simp: startMatcher_step_def split: if_splits)
next
  case Returned
  with assms show ?thesis
    by (auto simp: startMatcher_step_def split: if_splits)
qed

lemma startMatcher_step_ok:
  assumes "pipeline_ok name logc p" and "startMatcher_step e j sh p = Some (p', sh')"
  shows "pipeline_ok name logc p'"
  using assms(1) startMatcher_step_frame [OF assms(2)]
  by (simp add: pipeline_ok_def split: coordinator.splits)

lemma pipelines_invariant:
  assumes "reachable e conf s"
    and init: "\<And>name logc. Q name logc (startPipeline name logc)"
    and coord: "\<And>name logc n k sh p p' sh'.
        Q name logc p \<Longrightarrow> startPipeline_step e n k sh p = Some (p', sh') \<Longrightarrow> Q name logc p'"
    and work: "\<And>name logc j sh p p' sh'.
        Q name logc p \<Longrightarrow> startMatcher_step e j sh p = Some (p', sh') \<Longrightarrow> Q name logc p'"
  shows "length (pr_pipelines s) = length (Logs conf)
     \<and> (\<forall>i<length (Logs conf). Q (fst (Logs conf ! i)) (snd (Logs conf ! i)) (pr_pipelines s ! i))"
  using assms(1)
proof (rule reachable_invariant)
  show "length (pr_pipelines (main_start conf)) = length (Logs conf)
     \<and> (\<forall>i<length (Logs conf).
          Q (fst (Logs conf ! i)) (snd (Logs conf ! i)) (pr_pipelines (main_start conf) ! i))"
    by (simp add: main_start_def case_prod_unfold init)
next
  fix s ch s'
  assume inv: "length (pr_pipelines s) = length (Logs conf)
     \<and> (\<forall>i<length (Logs conf). Q (fst (Logs conf ! i)) (snd (Logs conf ! i)) (pr_pipelines s ! i))"
    and step: "fire e ch s = Some s'"
  from step show "length (pr_pipelines s') = length (Logs conf)
     \<and> (\<forall>i<length (Logs conf). Q (fst (Logs conf ! i)) (snd (Logs conf ! i)) (pr_pipelines s' ! i))"
  proof (cases rule: fire_cases)
    case Main
    with inv show ?thesis
      by (auto simp: main_step_def split: if_splits)
  next
    case (Pipeline i k p sh)
    have "Q (fst (Logs conf ! i)) (snd (Logs conf ! i)) p"
      using inv Pipeline(3,4) coord by auto
    with inv Pipeline(3,5) show ?thesis
      by (auto simp: nth_list_update)
  next
    case (Matcher i j p sh)
    have "Q (fst (Logs conf ! i)) (snd (Logs conf ! i)) p"
      using inv Matcher(3,4) work by auto
    with inv Matcher(3,5) show ?thesis
      by (auto simp: nth_list_update)
  qed
qed

lemma reachable_pipeline_ok:
  assumes "reachable e conf s" and "i < length (Logs conf)"
  shows "pipeline_ok (fst (Logs conf ! i)) (snd (Logs conf ! i)) (pr_pipelines s ! i)"
    and "length (pr_pipelines s) = length (Logs conf)"
  using pipelines_invariant [of e conf s pipeline_ok, OF assms(1) startPipeline_ok
      startPipeline_step_ok startMatcher_step_ok] assms(2)
  by auto

lemma reachable_the_exec:
  "exec e chs (main_start conf) \<noteq> None \<Longrightarrow> reachable e conf (the (exec e chs (main_start conf)))"
  by (auto intro: reachable_exec)

lemmas run_defs =
  main_start_def startPipeline_def fire_def put_pipeline_def main_step_def
  startPipeline_step_def startMatcher_step_def wg_Done_def log_Printf_def log_Fatal_def panic_def
  queue_keys_def make_chan_def queue_cap_def
  NewRegexpMatcher_def NewSubstringMatcher_def process_line_def example_env_def

subsection \<open>The order of a broadcast\<close>

text \<open>
  C3, as stated, fails: \<^verbatim>\<open>queues\<close> is a Go map, and each \<^verbatim>\<open>for _, q := range queues\<close>
  visits its keys in an order of its own. In the run \<open>two_schedule\<close> of one log with
  two matchers, the first line is handed to queue 0 and then to queue 1, the second
  line to queue 1 and then to queue 0.
\<close>

theorem broadcast_order_counterexample:
  "map_option (map pl_rounds \<circ> pr_pipelines)
     (exec (example_env two_files) two_schedule (main_start two_conf))
   = Some [[[0, 1], [1, 0]]]"
  by (simp add: two_conf_def two_files_def two_schedule_def run_defs)

text \<open>
  C3, amended. In every state of a run, each completed broadcast of a line has handed
  the line to the queue of every configured matcher exactly once: the order of a
  broadcast is a permutation of the matchers' positions, not the same one each time.
\<close>

theorem broadcast_visits_every_queue_once:
  assumes "reachable e conf s"
    and "i < length (Logs conf)"
    and "r \<in> set (pl_rounds (pr_pipelines s ! i))"
  shows "distinct r \<and> set r = {0..<length (Matchers (snd (Logs conf ! i)))}"
proof -
  have "pipeline_ok (fst (Logs conf ! i)) (snd (Logs conf ! i)) (pr_pipelines s ! i)"
    using assms(1,2) by (rule reachable_pipeline_ok)
  then have "visits_all r (length (Matchers (snd (Logs conf ! i))))"
    using assms(3) by (simp add: pipeline_ok_def)
  then show ?thesis
    by (simp add: visits_all_def)
qed

theorem broadcast_visits_every_queue_once_witness:
  "[1, 0] \<in> set (pl_rounds (pr_pipelines
       (the (exec (example_env two_files) two_schedule (main_start two_conf))) ! 0))
   \<and> distinct [1, 0 :: nat]
   \<and> set [1, 0] = {0..<length (Matchers (snd (Logs two_conf ! 0)))}"
proof -
  have run: "exec (example_env two_files) two_schedule (main_start two_conf) \<noteq> None"
    by (simp add: two_conf_def two_files_def two_schedule_def run_defs)
  have r: "[1, 0] \<in> set (pl_rounds (pr_pipelines
       (the (exec (example_env two_files) two_schedule (main_start two_conf))) ! 0))"
    by (simp add: two_conf_def two_files_def two_schedule_def run_defs)
  have i: "0 < length (Logs two_conf)"
    by (simp add: two_conf_def)
  show ?thesis
    using broadcast_visits_every_queue_once [OF reachable_the_exec [OF run] i r] r
    by simp
qed

subsection \<open>A worker that never receives\<close>

lemma stalled_coord:
  assumes "unknown_at e logc k f" and ok: "pipeline_ok name logc p"
    and st: "stalled (length (scan_lines f)) k p"
    and step: "startPipeline_step e n key sh p = Some (p', sh')"
  shows "stalled (length (scan_lines f)) k p'"
proof (cases "pl_coord p")
  case Spawning
  with assms show ?thesis
    by (auto simp: startPipeline_step_def stalled_def unknown_at_def never_receives_def make_chan_def
        pipeline_ok_def Let_def)
next
  case Opening
  with assms show ?thesis
    by (auto simp: startPipeline_step_def stalled_def unknown_at_def pipeline_ok_def Let_def
        split: sum.splits)
next
  case Scanning
  with assms show ?thesis
    by (auto simp: startPipeline_step_def stalled_def unknown_at_def pipeline_ok_def queue_keys_def
        Let_def split: list.splits option.splits)
next
  case (Broadcasting line pending)
  with assms show ?thesis
    by (auto simp: startPipeline_step_def stalled_def pipeline_ok_def visits_all_def Let_def
        split: if_splits)
next
  case (Sending line j pending)
  with assms show ?thesis
    by (auto simp: startPipeline_step_def stalled_def pipeline_ok_def visits_all_def Let_def
        queue_cap_def nth_list_update split: if_splits)
qed (use assms in \<open>auto simp: startPipeline_step_def stalled_def Let_def\<close>)

lemma stalled_worker:
  assumes "unknown_at e logc k f" and ok: "pipeline_ok name logc p"
    and st: "stalled (length (scan_lines f)) k p"
    and step: "startMatcher_step e j sh p = Some (p', sh')"
  shows "stalled (length (scan_lines f)) k p'"
proof -
  have fr: "pl_coord p' = pl_coord p" "pl_scanner p' = pl_scanner p"
    using startMatcher_step_frame [OF step] by simp_all
  have nr: "never_receives (pl_workers p ! k) \<Longrightarrow>
      never_receives (pl_workers p' ! k) \<and> buf (pl_queues p' ! k) = buf (pl_queues p ! k)"
    using step
    by (cases "j = k"; cases "pl_workers p ! j")
       (auto simp: startMatcher_step_def never_receives_def wg_Done_def Let_def nth_list_update
        split: if_splits option.splits list.splits)
  show ?thesis
    using st nr unfolding stalled_def fr Let_def
    by (auto split: coordinator.splits if_splits)
qed


lemma startPipeline_step_sent:
  assumes "startPipeline_step e n k sh p = Some (p', sh')"
  shows "pl_name p' = pl_name p
     \<and> (signalled (pl_coord p) \<longrightarrow> signalled (pl_coord p'))
     \<and> (sent (sh_sink sh') = sent (sh_sink sh)
        \<or> (sent (sh_sink sh') = sent (sh_sink sh) @ [report (sh_collector sh) (pl_name p)]
            \<and> signalled (pl_coord p')))"
proof (cases "pl_coord p")
  case Spawning
  from step_Spawning [OF this assms] Spawning show ?thesis by simp
next
  case Opening
  from step_Opening [OF this assms] Opening show ?thesis by (auto simp: log_Fatal_def)
next
  case Scanning
  from step_Scanning [OF this assms] Scanning show ?thesis by (auto simp: log_Fatal_def)
next
  case (Broadcasting line pending)
  from step_Broadcasting [OF this assms] Broadcasting show ?thesis by auto
next
  case (Sending line i pending)
  from step_Sending [OF this assms] Sending show ?thesis by (auto simp: panic_def)
next
  case (Closing pending)
  from step_Closing [OF this assms] Closing show ?thesis by (auto simp: panic_def)
next
  case Waiting
  from step_Waiting [OF this assms] Waiting show ?thesis by simp
next
  case Reporting
  from step_Reporting [OF this assms] show ?thesis by (simp add: sent_Send)
next
  case Signalling
  from step_Signalling [OF this assms] show ?thesis by simp
next
  case Finished
  from step_Finished [OF this] assms show ?thesis by simp
qed

lemma startMatcher_step_sent:
  assumes "startMatcher_step e j sh p = Some (p', sh')"
  shows "sent (sh_sink sh') = sent (sh_sink sh)"
  using assms
proof (cases rule: startMatcher_step_cases)
  case (Unknown flavour criteria)
  from wg_Done_cases [OF this(4)] show ?thesis
    by (auto simp: panic_def log_Printf_def)
next
  case (Drained m)
  from wg_Done_cases [OF this(4)] show ?thesis
    by (auto simp: panic_def)
qed (simp_all add: panic_def)

lemma main_step_sent:
  "main_step s = Some s' \<Longrightarrow>
     pr_pipelines s' = pr_pipelines s \<and> sh_sink (pr_shared s') = sh_sink (pr_shared s)"
  by (auto simp: main_step_def split: if_splits)

lemma sent_ok_update:
  assumes ok: "sent_ok s" and i: "i < length (pr_pipelines s)"
    and name: "pl_name p = pl_name (pr_pipelines s ! i)"
    and sig: "signalled (pl_coord (pr_pipelines s ! i)) \<Longrightarrow> signalled (pl_coord p)"
    and sent: "sent (sh_sink sh) = sent (sh_sink (pr_shared s))
        \<or> (\<exists>m. sent (sh_sink sh) = sent (sh_sink (pr_shared s)) @ [m]
              \<and> subject m = ''Log Errors: '' @ pl_name p \<and> signalled (pl_coord p))"
  shows "sent_ok (s\<lparr>pr_shared := sh, pr_pipelines := (pr_pipelines s)[i := p]\<rparr>)"
  unfolding sent_ok_def
proof
  fix m
  assume "m \<in> set (sent (sh_sink (pr_shared (s\<lparr>pr_shared := sh, pr_pipelines := (pr_pipelines s)[i := p]\<rparr>))))"
  then have m: "m \<in> set (sent (sh_sink sh))" by simp
  let ?ps = "(pr_pipelines s)[i := p]"
  have new: "\<exists>j<length ?ps. subject m = ''Log Errors: '' @ pl_name (?ps ! j) \<and> signalled (pl_coord (?ps ! j))"
    if "subject m = ''Log Errors: '' @ pl_name p" "signalled (pl_coord p)"
    using that i by (intro exI [of _ i]) simp
  have old: "\<exists>j<length ?ps. subject m = ''Log Errors: '' @ pl_name (?ps ! j) \<and> signalled (pl_coord (?ps ! j))"
    if "m \<in> set (sent (sh_sink (pr_shared s)))"
  proof -
    from ok that obtain j where j: "j < length (pr_pipelines s)"
      "subject m = ''Log Errors: '' @ pl_name (pr_pipelines s ! j)"
      "signalled (pl_coord (pr_pipelines s ! j))"
      by (auto simp: sent_ok_def)
    show ?thesis
    proof (cases "j = i")
      case True
      with j name sig show ?thesis by (intro new) simp_all
    next
      case False
      with j show ?thesis by (intro exI [of _ j]) simp
    qed
  qed
  from sent m old new
  have "\<exists>j<length ?ps. subject m = ''Log Errors: '' @ pl_name (?ps ! j) \<and> signalled (pl_coord (?ps ! j))"
    by auto
  then show "\<exists>j<length (pr_pipelines (s\<lparr>pr_shared := sh, pr_pipelines := ?ps\<rparr>)).
      subject m = ''Log Errors: '' @ pl_name (pr_pipelines (s\<lparr>pr_shared := sh, pr_pipelines := ?ps\<rparr>) ! j)
      \<and> signalled (pl_coord (pr_pipelines (s\<lparr>pr_shared := sh, pr_pipelines := ?ps\<rparr>) ! j))"
    by simp
qed

lemma reachable_sent_ok:
  assumes "reachable e conf s"
  shows "sent_ok s"
  using assms
proof (rule reachable_invariant)
  show "sent_ok (main_start conf)"
    by (simp add: sent_ok_def main_start_def)
next
  fix s ch s'
  assume ok: "sent_ok s" and step: "fire e ch s = Some s'"
  from step show "sent_ok s'"
  proof (cases rule: fire_cases)
    case Main
    from main_step_sent [OF Main(3)] ok show ?thesis
      by (simp add: sent_ok_def)
  next
    case (Pipeline i k p sh)
    from startPipeline_step_sent [OF Pipeline(4)]
    show ?thesis
      unfolding Pipeline(5) using ok Pipeline(3)
      by (intro sent_ok_update) (auto simp: report_def)
  next
    case (Matcher i j p sh)
    from startMatcher_step_frame [OF Matcher(4)] startMatcher_step_sent [OF Matcher(4)]
    show ?thesis
      unfolding Matcher(5) using ok Matcher(3)
      by (intro sent_ok_update) auto
  qed
qed

lemma reachable_stalled:
  assumes "reachable e conf s" and "i < length (Logs conf)"
    and "unknown_at e (snd (Logs conf ! i)) k f"
  shows "stalled (length (scan_lines f)) k (pr_pipelines s ! i)"
proof -
  let ?Q = "\<lambda>name logc p. pipeline_ok name logc p
              \<and> (unknown_at e logc k f \<longrightarrow> stalled (length (scan_lines f)) k p)"
  have "length (pr_pipelines s) = length (Logs conf)
     \<and> (\<forall>i<length (Logs conf). ?Q (fst (Logs conf ! i)) (snd (Logs conf ! i)) (pr_pipelines s ! i))"
    using assms(1)
  proof (rule pipelines_invariant)
    show "?Q name logc (startPipeline name logc)" for name logc
      by (simp add: startPipeline_ok) (simp add: stalled_def startPipeline_def)
  next
    show "?Q name logc p'"
      if "?Q name logc p" and "startPipeline_step e n key sh p = Some (p', sh')"
      for name logc n key sh p p' sh'
      using that startPipeline_step_ok stalled_coord by blast
  next
    show "?Q name logc p'"
      if "?Q name logc p" and "startMatcher_step e j sh p = Some (p', sh')"
      for name logc j sh p p' sh'
      using that startMatcher_step_ok stalled_worker by blast
  qed
  with assms(2,3) show ?thesis by blast
qed

lemma stalled_reading: "stalled n k p \<Longrightarrow> reading (pl_coord p)"
  by (auto simp: stalled_def reading_def Let_def split: coordinator.splits)

text \<open>
  C2. A matcher of an unknown flavour is to leave the rest of its pipeline running.
  The worker of such a matcher logs the error and returns at once, so nothing ever
  takes a line from its queue, which holds one line. When the file of the log has two
  lines or more, the coordinator therefore never leaves its read loop, in any run: it
  never closes the queues, never waits for the workers, and never calls \<^verbatim>\<open>Send\<close>, so
  that no report of this log is ever handed to Mailgun, whatever its other matchers
  have recorded.
\<close>

theorem unknown_matcher_stalls:
  assumes "reachable e conf s"
    and "distinct (map fst (Logs conf))"
    and "i < length (Logs conf)"
    and "k < length (Matchers (snd (Logs conf ! i)))"
    and "fst (Matchers (snd (Logs conf ! i)) ! k) \<noteq> ''regexp''"
    and "fst (Matchers (snd (Logs conf ! i)) ! k) \<noteq> ''substring''"
    and "osOpen e (Path (snd (Logs conf ! i))) = Inr f"
    and "2 \<le> length (scan_lines f)"
  shows "reading (pl_coord (pr_pipelines s ! i))
     \<and> pl_coord (pr_pipelines s ! i) \<noteq> Waiting
     \<and> pl_coord (pr_pipelines s ! i) \<noteq> Reporting
     \<and> pl_coord (pr_pipelines s ! i) \<noteq> Finished
     \<and> (\<forall>m\<in>set (sent (sh_sink (pr_shared s))).
          subject m \<noteq> ''Log Errors: '' @ fst (Logs conf ! i))"
proof -
  have "unknown_at e (snd (Logs conf ! i)) k f"
    using assms(4-8) by (simp add: unknown_at_def)
  with assms(1,3) have "stalled (length (scan_lines f)) k (pr_pipelines s ! i)"
    by (rule reachable_stalled)
  then have reading: "reading (pl_coord (pr_pipelines s ! i))"
    by (rule stalled_reading)
  have "subject m \<noteq> ''Log Errors: '' @ fst (Logs conf ! i)"
    if m: "m \<in> set (sent (sh_sink (pr_shared s)))" for m
  proof
    assume eq: "subject m = ''Log Errors: '' @ fst (Logs conf ! i)"
    from reachable_sent_ok [OF assms(1)] m obtain j
      where j: "j < length (pr_pipelines s)"
        and subj: "subject m = ''Log Errors: '' @ pl_name (pr_pipelines s ! j)"
        and sig: "signalled (pl_coord (pr_pipelines s ! j))"
      by (auto simp: sent_ok_def)
    have len: "length (pr_pipelines s) = length (Logs conf)"
      using reachable_pipeline_ok(2) [OF assms(1,3)] .
    have "pipeline_ok (fst (Logs conf ! j)) (snd (Logs conf ! j)) (pr_pipelines s ! j)"
      using reachable_pipeline_ok(1) [OF assms(1)] j len by simp
    then have "pl_name (pr_pipelines s ! j) = fst (Logs conf ! j)"
      by (simp add: pipeline_ok_def)
    with eq subj have same: "fst (Logs conf ! j) = fst (Logs conf ! i)"
      by simp
    have "j = i"
    proof (rule ccontr)
      assume "j \<noteq> i"
      then have "fst (Logs conf ! j) \<noteq> fst (Logs conf ! i)"
        using assms(2,3) j len by (simp add: distinct_conv_nth)
      with same show False by simp
    qed
    with sig reading show False
      by (cases "pl_coord (pr_pipelines s ! i)") (simp_all add: reading_def)
  qed
  with reading show ?thesis
    by (auto simp: reading_def)
qed

theorem unknown_matcher_stalls_witness:
  "map_option
     (\<lambda>s. (pl_coord (pr_pipelines s ! 0), pl_queues (pr_pipelines s ! 0),
           pl_workers (pr_pipelines s ! 0), sh_exit (pr_shared s), sh_sink (pr_shared s),
           Errors (sh_collector (pr_shared s)) ''app''))
     (exec (example_env unknown_files) unknown_schedule (main_start unknown_conf))
   = Some (Sending ''WARN: again'' 0 [1],
           [\<lparr>buf = [''WARN: low memory''], closed = False\<rparr>, \<lparr>buf = [], closed = False\<rparr>],
           [Returned, Receiving (regexpMatcher ''WARN'' ''WARN'')], None,
           \<lparr>sent = [], logged = [''Error: unknown matcher unknown'']\<rparr>,
           [''WARN: low memory''])
   \<and> (\<forall>ch. fire (example_env unknown_files) ch
         (the (exec (example_env unknown_files) unknown_schedule (main_start unknown_conf))) = None)
   \<and> reading (pl_coord (pr_pipelines
         (the (exec (example_env unknown_files) unknown_schedule (main_start unknown_conf))) ! 0))"
proof -
  have run: "exec (example_env unknown_files) unknown_schedule (main_start unknown_conf) \<noteq> None"
    by (simp add: unknown_conf_def unknown_files_def unknown_schedule_def run_defs)
  have stuck: "fire (example_env unknown_files) ch
       (the (exec (example_env unknown_files) unknown_schedule (main_start unknown_conf))) = None"
    for ch
    by (cases ch) (auto simp: unknown_conf_def unknown_files_def unknown_schedule_def run_defs less_Suc_eq)
  have view: "map_option
     (\<lambda>s. (pl_coord (pr_pipelines s ! 0), pl_queues (pr_pipelines s ! 0),
           pl_workers (pr_pipelines s ! 0), sh_exit (pr_shared s), sh_sink (pr_shared s),
           Errors (sh_collector (pr_shared s)) ''app''))
     (exec (example_env unknown_files) unknown_schedule (main_start unknown_conf))
   = Some (Sending ''WARN: again'' 0 [1],
           [\<lparr>buf = [''WARN: low memory''], closed = False\<rparr>, \<lparr>buf = [], closed = False\<rparr>],
           [Returned, Receiving (regexpMatcher ''WARN'' ''WARN'')], None,
           \<lparr>sent = [], logged = [''Error: unknown matcher unknown'']\<rparr>,
           [''WARN: low memory''])"
    by (simp add: unknown_conf_def unknown_files_def unknown_schedule_def run_defs
        Errors_def errors_Add NewCollector_def)
  have "reading (pl_coord (pr_pipelines
         (the (exec (example_env unknown_files) unknown_schedule (main_start unknown_conf))) ! 0))"
    using unknown_matcher_stalls [OF reachable_the_exec [OF run], of 0 0
        "\<lparr>scan_lines = [''WARN: low memory'', ''WARN: again''], scan_err = None\<rparr>"]
    by (simp add: unknown_conf_def unknown_files_def example_env_def)
  with stuck view show ?thesis by blast
qed

subsection \<open>A log with a single matcher\<close>

lemma sc_Spawning:
  assumes ok: "pipeline_ok name logc p" and one: "Matchers logc = [(flavour, criteria)]"
    and inv: "single_ok e m flavour criteria all errs p"
    and step: "startPipeline_step e n k sh p = Some (p', sh')"
    and c: "pl_coord p = Spawning"
  shows "single_ok e m flavour criteria all errs p'"
  using step_Spawning [OF c step] ok one inv c
  by (simp add: single_ok_def pipeline_ok_def in_flight_def make_chan_def)

lemma sc_Opening:
  assumes ok: "pipeline_ok name logc p"
    and opened: "osOpen e (Path logc) = Inr f"
    and inv: "single_ok e m flavour criteria (scan_lines f) errs p"
    and step: "startPipeline_step e n k sh p = Some (p', sh')"
    and c: "pl_coord p = Opening"
  shows "single_ok e m flavour criteria (scan_lines f) errs p'"
proof -
  have "pl_logc p = logc" using ok by (simp add: pipeline_ok_def)
  with step_Opening [OF c step] opened
  have p': "p' = p\<lparr>pl_scanner := f, pl_coord := Scanning\<rparr>" by auto
  show ?thesis
    using inv c unfolding p' by (auto simp: single_ok_def in_flight_def)
qed

lemma sc_Scanning:
  assumes ok: "pipeline_ok name logc p" and one: "Matchers logc = [(flavour, criteria)]"
    and inv: "single_ok e m flavour criteria all errs p"
    and step: "startPipeline_step e n k sh p = Some (p', sh')"
    and c: "pl_coord p = Scanning"
  shows "single_ok e m flavour criteria all errs p'"
proof -
  have keys: "queue_keys p = [0]"
    using ok one c by (simp add: pipeline_ok_def queue_keys_def)
  from step_Scanning [OF c step] show ?thesis
  proof (elim disjE exE conjE)
    fix line rest
    assume "scan_lines (pl_scanner p) = line # rest"
      "p' = p\<lparr>pl_scanner := (pl_scanner p)\<lparr>scan_lines := rest\<rparr>, pl_round := [],
                  pl_coord := Broadcasting line (queue_keys p)\<rparr>"
    with inv c keys show ?thesis
      by (simp add: single_ok_def in_flight_def cong: conj_cong)
  next
    fix err assume "p' = p"
    with inv show ?thesis by simp
  next
    assume "scan_lines (pl_scanner p) = []" "p' = p\<lparr>pl_coord := Closing (queue_keys p)\<rparr>"
    with inv c show ?thesis
      by (simp add: single_ok_def in_flight_def cong: conj_cong)
  qed
qed

lemma sc_Broadcasting:
  assumes inv: "single_ok e m flavour criteria all errs p"
    and step: "startPipeline_step e n k sh p = Some (p', sh')"
    and c: "pl_coord p = Broadcasting line pending"
  shows "single_ok e m flavour criteria all errs p'"
proof -
  from step_Broadcasting [OF c step] show ?thesis
  proof (elim disjE exE conjE)
    assume "pending = []" "p' = p\<lparr>pl_rounds := pl_rounds p @ [pl_round p], pl_coord := Scanning\<rparr>"
    with inv c show ?thesis
      by (simp add: single_ok_def in_flight_def cong: conj_cong)
  next
    assume k: "k \<in> set pending" and p': "p' = p\<lparr>pl_coord := Sending line k (remove1 k pending)\<rparr>"
    have "(k = 0 \<or> 0 \<in> set (remove1 k pending)) \<longleftrightarrow> 0 \<in> set pending"
      using k by (cases "k = 0") (auto simp: in_set_remove1 dest: notin_set_remove1)
    with inv c show ?thesis
      unfolding p' by (simp add: single_ok_def in_flight_def cong: conj_cong)
  qed
qed

lemma sc_Sending:
  assumes ok: "pipeline_ok name logc p" and one: "Matchers logc = [(flavour, criteria)]"
    and inv: "single_ok e m flavour criteria all errs p"
    and step: "startPipeline_step e n k sh p = Some (p', sh')"
    and c: "pl_coord p = Sending line j pending"
  shows "single_ok e m flavour criteria all errs p'"
proof -
  have len: "length (pl_queues p) = 1" and fresh: "j \<notin> set pending"
    using ok one c by (auto simp: pipeline_ok_def visits_all_def)
  from step_Sending [OF c step] show ?thesis
  proof (elim disjE exE conjE)
    assume "p' = p"
    with inv show ?thesis by simp
  next
    assume j: "j < length (pl_queues p)" and opn: "\<not> closed (pl_queues p ! j)"
      and empty: "buf (pl_queues p ! j) = []"
      and p': "p' = p\<lparr>pl_queues := (pl_queues p)[j := (pl_queues p ! j)\<lparr>buf := [line]\<rparr>],
                    pl_round := pl_round p @ [j],
                    pl_coord := Broadcasting line pending\<rparr>"
    have j0: "j = 0" using j len by simp
    show ?thesis
      using inv c opn empty fresh len unfolding p' j0
      by (simp add: single_ok_def in_flight_def cong: conj_cong)
  qed
qed

lemma sc_Closing:
  assumes ok: "pipeline_ok name logc p" and one: "Matchers logc = [(flavour, criteria)]"
    and inv: "single_ok e m flavour criteria all errs p"
    and step: "startPipeline_step e n k sh p = Some (p', sh')"
    and c: "pl_coord p = Closing pending"
  shows "single_ok e m flavour criteria all errs p'"
proof -
  have len: "length (pl_queues p) = 1"
    using ok one c by (simp add: pipeline_ok_def)
  from step_Closing [OF c step] show ?thesis
  proof (elim disjE exE conjE)
    assume "p' = p\<lparr>pl_coord := Waiting\<rparr>"
    with inv c show ?thesis
      by (simp add: single_ok_def in_flight_def cong: conj_cong)
  next
    assume "p' = p"
    with inv show ?thesis by simp
  next
    assume k: "k < length (pl_queues p)"
      and p': "p' = p\<lparr>pl_queues := (pl_queues p)[k := (pl_queues p ! k)\<lparr>closed := True\<rparr>],
                    pl_coord := Closing (remove1 k pending)\<rparr>"
    have k0: "k = 0" using k len by simp
    show ?thesis
      using inv c len unfolding p' k0
      by (simp add: single_ok_def in_flight_def cong: conj_cong)
  qed
qed

lemma sc_Waiting:
  assumes inv: "single_ok e m flavour criteria all errs p"
    and step: "startPipeline_step e n k sh p = Some (p', sh')"
    and c: "pl_coord p = Waiting"
  shows "single_ok e m flavour criteria all errs p'"
proof -
  from step_Waiting [OF c step] have wg: "pl_wg p = 0" and p': "p' = p\<lparr>pl_coord := Reporting\<rparr>"
    by simp_all
  have "pl_workers p ! 0 = Returned"
    using inv c wg by (auto simp: single_ok_def split: if_splits)
  with inv c show ?thesis
    unfolding p' by (simp add: single_ok_def in_flight_def cong: conj_cong)
qed

lemma sc_Reporting:
  assumes inv: "single_ok e m flavour criteria all errs p"
    and step: "startPipeline_step e n k sh p = Some (p', sh')"
    and c: "pl_coord p = Reporting"
  shows "single_ok e m flavour criteria all errs p'"
proof -
  from step_Reporting [OF c step] have p': "p' = p\<lparr>pl_coord := Signalling\<rparr>"
    by simp
  have "pl_workers p ! 0 = Returned"
    using inv c by (simp add: single_ok_def)
  with inv c show ?thesis
    unfolding p' by (simp add: single_ok_def in_flight_def cong: conj_cong)
qed

lemma sc_Signalling:
  assumes inv: "single_ok e m flavour criteria all errs p"
    and step: "startPipeline_step e n k sh p = Some (p', sh')"
    and c: "pl_coord p = Signalling"
  shows "single_ok e m flavour criteria all errs p'"
proof -
  from step_Signalling [OF c step] have p': "p' = p\<lparr>pl_coord := Finished\<rparr>"
    by simp
  have "pl_workers p ! 0 = Returned"
    using inv c by (simp add: single_ok_def)
  with inv c show ?thesis
    unfolding p' by (simp add: single_ok_def in_flight_def cong: conj_cong)
qed

lemma single_coord:
  assumes ok: "pipeline_ok name logc p" and one: "Matchers logc = [(flavour, criteria)]"
    and opened: "osOpen e (Path logc) = Inr f"
    and inv: "single_ok e m flavour criteria (scan_lines f) errs p"
    and step: "startPipeline_step e n k sh p = Some (p', sh')"
  shows "single_ok e m flavour criteria (scan_lines f) errs p'"
proof (cases "pl_coord p")
  case Spawning
  with ok one inv step show ?thesis by (rule sc_Spawning)
next
  case Opening
  with ok opened inv step show ?thesis by (rule sc_Opening)
next
  case Scanning
  with ok one inv step show ?thesis by (rule sc_Scanning)
next
  case (Broadcasting line pending)
  with inv step show ?thesis by (rule sc_Broadcasting)
next
  case (Sending line j pending)
  with ok one inv step show ?thesis by (rule sc_Sending)
next
  case (Closing pending)
  with ok one inv step show ?thesis by (rule sc_Closing)
next
  case Waiting
  with inv step show ?thesis by (rule sc_Waiting)
next
  case Reporting
  with inv step show ?thesis by (rule sc_Reporting)
next
  case Signalling
  with inv step show ?thesis by (rule sc_Signalling)
next
  case Finished
  from step_Finished [OF this] step show ?thesis
    by simp
qed


lemma single_worker:
  assumes ok: "pipeline_ok name logc p" and one: "Matchers logc = [(flavour, criteria)]"
    and mo: "matcher_of e flavour criteria = Some m"
    and inv: "single_ok e m flavour criteria all (Errors (sh_collector sh) name) p"
    and step: "startMatcher_step e j sh p = Some (p', sh')"
  shows "single_ok e m flavour criteria all (Errors (sh_collector sh') name) p'"
proof -
  have j: "j < length (pl_workers p)"
    using startMatcher_step_index [OF step] by simp
  have sp: "pl_coord p \<noteq> Spawning"
    using ok j by (auto simp: pipeline_ok_def)
  have len: "length (pl_queues p) = 1" "length (pl_workers p) = 1"
    using ok one sp by (auto simp: pipeline_ok_def split: coordinator.splits)
  have j0: "j = 0" using j len by simp
  have name: "pl_name p = name" using ok by (simp add: pipeline_ok_def)
  from step show ?thesis
  proof (cases rule: startMatcher_step_cases)
    case (Panic criteria)
    with inv show ?thesis by (simp add: panic_def)
  next
    case (Compiled cr m')
    have "m' = m"
      using inv sp Compiled(1,2) mo unfolding j0 by (auto simp: single_ok_def matcher_of_def split: if_splits)
    with inv sp Compiled(1,3,4) len show ?thesis
      unfolding j0 by (auto simp: single_ok_def in_flight_def split: if_splits)
  next
    case (Substring cr)
    have "NewSubstringMatcher cr = m"
      using inv sp Substring(1) mo unfolding j0 by (auto simp: single_ok_def matcher_of_def split: if_splits)
    with inv sp Substring len show ?thesis
      unfolding j0 by (auto simp: single_ok_def in_flight_def split: if_splits)
  next
    case (Unknown fl cr)
    have "fl = flavour"
      using inv sp Unknown(1) unfolding j0 by (simp add: single_ok_def)
    with Unknown(2,3) mo show ?thesis
      by (simp add: matcher_of_def)
  next
    case (Receive m' line rest)
    with inv sp len show ?thesis
      unfolding j0 by (auto simp: single_ok_def in_flight_def split: if_splits)
  next
    case (Drained m')
    have wg: "pl_wg p = 1"
      using inv sp Drained(1) unfolding j0 by (simp add: single_ok_def)
    from wg_Done_cases [OF Drained(4)] wg
    have p': "p' = p\<lparr>pl_workers := (pl_workers p)[j := Returned], pl_wg := pl_wg p - 1\<rparr>"
      and sh': "sh' = sh" by simp_all
    have cl: "closing (pl_coord p)"
      using inv sp Drained(3) unfolding j0 by (simp add: single_ok_def split: if_splits)
    show ?thesis
      using inv sp Drained(1-3) len cl unfolding j0 p' sh'
      by (auto simp: single_ok_def in_flight_def split: if_splits)
  next
    case (Match m' line)
    have m': "m' = m"
      using inv sp Match(1) unfolding j0 by (simp add: single_ok_def)
    have op: "pl_coord p \<noteq> Opening"
      using inv sp Match(1) unfolding j0 by (auto simp: single_ok_def in_flight_def)
    show ?thesis
      using inv sp op Match(1) len unfolding j0 Match(2,3) m' name
      by (auto simp: single_ok_def in_flight_def Errors_process_line split: if_splits)
  qed
qed


lemma startPipeline_step_collector:
  assumes "startPipeline_step e n k sh p = Some (p', sh')"
  shows "sh_collector sh' = sh_collector sh"
proof (cases "pl_coord p")
  case Spawning
  from step_Spawning [OF this assms] show ?thesis by simp
next
  case Opening
  from step_Opening [OF this assms] show ?thesis by (auto simp: log_Fatal_def)
next
  case Scanning
  from step_Scanning [OF this assms] show ?thesis by (auto simp: log_Fatal_def)
next
  case (Broadcasting line pending)
  from step_Broadcasting [OF this assms] show ?thesis by simp
next
  case (Sending line i pending)
  from step_Sending [OF this assms] show ?thesis by (auto simp: panic_def)
next
  case (Closing pending)
  from step_Closing [OF this assms] show ?thesis by (auto simp: panic_def)
next
  case Waiting
  from step_Waiting [OF this assms] show ?thesis by simp
next
  case Reporting
  from step_Reporting [OF this assms] show ?thesis by simp
next
  case Signalling
  from step_Signalling [OF this assms] show ?thesis by simp
next
  case Finished
  from step_Finished [OF this] assms show ?thesis by simp
qed

lemma startMatcher_step_other:
  assumes "startMatcher_step e j sh p = Some (p', sh')" and "other \<noteq> pl_name p"
  shows "Errors (sh_collector sh') other = Errors (sh_collector sh) other"
  using assms(1)
proof (cases rule: startMatcher_step_cases)
  case (Unknown flavour criteria)
  from wg_Done_cases [OF this(4)] show ?thesis
    by (auto simp: panic_def log_Printf_def)
next
  case (Drained m)
  from wg_Done_cases [OF this(4)] show ?thesis
    by (auto simp: panic_def)
next
  case (Match m line)
  with assms(2) show ?thesis
    by (simp add: process_line_def)
qed (simp_all add: panic_def)

lemma main_step_frame:
  "main_step s = Some s' \<Longrightarrow>
     pr_pipelines s' = pr_pipelines s \<and> sh_collector (pr_shared s') = sh_collector (pr_shared s)"
  by (auto simp: main_step_def split: if_splits)

lemma reachable_single:
  assumes reach: "reachable e conf s"
    and names: "distinct (map fst (Logs conf))"
    and i: "i < length (Logs conf)"
    and one: "Matchers (snd (Logs conf ! i)) = [(flavour, criteria)]"
    and mo: "matcher_of e flavour criteria = Some m"
    and opened: "osOpen e (Path (snd (Logs conf ! i))) = Inr f"
  shows "single_ok e m flavour criteria (scan_lines f)
           (Errors (sh_collector (pr_shared s)) (fst (Logs conf ! i))) (pr_pipelines s ! i)"
proof -
  let ?name = "fst (Logs conf ! i)" and ?logc = "snd (Logs conf ! i)"
  let ?I = "\<lambda>s. single_ok e m flavour criteria (scan_lines f)
           (Errors (sh_collector (pr_shared s)) ?name) (pr_pipelines s ! i)"
  have "reachable e conf s \<and> ?I s"
    using reach
  proof (rule reachable_invariant)
    have p0: "pr_pipelines (main_start conf) ! i = startPipeline ?name ?logc"
      using i by (simp add: main_start_def case_prod_unfold)
    have c0: "Errors (sh_collector (pr_shared (main_start conf))) ?name = []"
      by (simp add: main_start_def NewCollector_def Errors_def)
    have "single_ok e m flavour criteria (scan_lines f) [] (startPipeline ?name ?logc)"
      by (simp add: single_ok_def startPipeline_def)
    then have "?I (main_start conf)"
      by (simp only: p0 c0)
    then show "reachable e conf (main_start conf) \<and> ?I (main_start conf)"
      by (simp add: reachable_start)
  next
    fix s ch s'
    assume inv: "reachable e conf s \<and> ?I s" and step: "fire e ch s = Some s'"
    then have r: "reachable e conf s" and I: "?I s" by simp_all
    have r': "reachable e conf s'" using r step by (rule reachable_fire)
    have ok: "pipeline_ok ?name ?logc (pr_pipelines s ! i)"
      and len: "length (pr_pipelines s) = length (Logs conf)"
      using reachable_pipeline_ok [OF r i] by simp_all
    from step have "?I s'"
    proof (cases rule: fire_cases)
      case Main
      from main_step_frame [OF Main(3)] I show ?thesis by simp
    next
      case (Pipeline i' k p sh)
      have col: "sh_collector sh = sh_collector (pr_shared s)"
        using Pipeline(4) by (rule startPipeline_step_collector)
      show ?thesis
      proof (cases "i' = i")
        case True
        have "single_ok e m flavour criteria (scan_lines f)
                (Errors (sh_collector (pr_shared s)) ?name) p"
          using ok one opened I Pipeline(4) unfolding True by (rule single_coord)
        then show ?thesis
          using Pipeline(5) col True i len by simp
      next
        case False
        then show ?thesis
          using I Pipeline(5) col by simp
      qed
    next
      case (Matcher i' j p sh)
      show ?thesis
      proof (cases "i' = i")
        case True
        have "single_ok e m flavour criteria (scan_lines f) (Errors (sh_collector sh) ?name) p"
          using ok one mo I Matcher(4) unfolding True by (rule single_worker)
        then show ?thesis
          using Matcher(5) True i len by simp
      next
        case False
        have "pipeline_ok (fst (Logs conf ! i')) (snd (Logs conf ! i')) (pr_pipelines s ! i')"
          using reachable_pipeline_ok(1) [OF r] Matcher(3) len by simp
        then have "pl_name (pr_pipelines s ! i') = fst (Logs conf ! i')"
          by (simp add: pipeline_ok_def)
        moreover have "fst (Logs conf ! i') \<noteq> ?name"
          using names False i Matcher(3) len
          by (simp add: distinct_conv_nth)
        ultimately have "Errors (sh_collector sh) ?name = Errors (sh_collector (pr_shared s)) ?name"
          using startMatcher_step_other [OF Matcher(4), of ?name] by simp
        then show ?thesis
          using I Matcher(5) False by simp
      qed
    qed
    with r' show "reachable e conf s' \<and> ?I s'" by simp
  qed
  then show ?thesis by simp
qed

lemma single_ok_prefix:
  assumes "single_ok e m flavour criteria all errs p"
  shows "\<exists>rest. filter (Match e m) all = errs @ rest"
proof -
  consider "errs = []" | "errs @ filter (Match e m) (in_flight p) = filter (Match e m) all"
    using assms by (auto simp: single_ok_def split: if_splits)
  then show ?thesis
  proof cases
    case 1
    then show ?thesis by simp
  next
    case 2
    then have "filter (Match e m) all = errs @ filter (Match e m) (in_flight p)"
      by simp
    then show ?thesis ..
  qed
qed

lemma single_ok_reported:
  "single_ok e m flavour criteria all errs p \<Longrightarrow> reported (pl_coord p) \<Longrightarrow>
     errs = filter (Match e m) all"
  by (cases "pl_coord p") (auto simp: single_ok_def in_flight_def split: if_splits)

text \<open>
  C8. A worker processing the lines of its queue in order appends the lines its
  matcher accepts to the list of its source, in that order. For a log with a single
  matcher, in every state of every run, whatever the other logs do, the list recorded
  for the log is an initial part of the lines of the file that the matcher accepts, in
  file order; and once the coordinator has passed \<^verbatim>\<open>wg.Wait()\<close> it is all of them.
\<close>

theorem single_matcher_order:
  assumes "reachable e conf s"
    and "distinct (map fst (Logs conf))"
    and "i < length (Logs conf)"
    and "Matchers (snd (Logs conf ! i)) = [(flavour, criteria)]"
    and "matcher_of e flavour criteria = Some m"
    and "osOpen e (Path (snd (Logs conf ! i))) = Inr f"
  shows "Errors (range_queue e m name queue c) name = Errors c name @ filter (Match e m) queue
    \<and> (\<exists>rest. filter (Match e m) (scan_lines f)
           = Errors (sh_collector (pr_shared s)) (fst (Logs conf ! i)) @ rest)
    \<and> (reported (pl_coord (pr_pipelines s ! i)) \<longrightarrow>
          Errors (sh_collector (pr_shared s)) (fst (Logs conf ! i))
            = filter (Match e m) (scan_lines f))"
proof -
  have inv: "single_ok e m flavour criteria (scan_lines f)
           (Errors (sh_collector (pr_shared s)) (fst (Logs conf ! i))) (pr_pipelines s ! i)"
    using assms by (rule reachable_single)
  show ?thesis
    using single_ok_prefix [OF inv] single_ok_reported [OF inv]
    by (simp add: Errors_range_queue)
qed

theorem single_matcher_order_witness:
  "map_option
     (\<lambda>s. (pl_coord (pr_pipelines s ! 0), Errors (sh_collector (pr_shared s)) ''app'',
           map text_body (sent (sh_sink (pr_shared s))), sh_exit (pr_shared s)))
     (exec (example_env [(''/var/log/app.log'', single_file)]) single_schedule (main_start single_conf))
   = Some (Finished, [''ERROR: disk full'', ''ERROR: timeout''],
           [''ERROR: disk full'' @ [CHR 0x0A] @ ''ERROR: timeout''], Some 0)
   \<and> filter (Match (example_env [(''/var/log/app.log'', single_file)]) (regexpMatcher ''ERROR'' ''ERROR''))
        (scan_lines single_file)
     = [''ERROR: disk full'', ''ERROR: timeout'']"
proof -
  let ?e = "example_env [(''/var/log/app.log'', single_file)]"
  have run: "exec ?e single_schedule (main_start single_conf) \<noteq> None"
    by (simp add: single_conf_def single_file_def single_schedule_def run_defs
        Errors_def errors_Add NewCollector_def Send_def HasErrors_def report_def index_map_def)
  have view: "map_option
     (\<lambda>s. (pl_coord (pr_pipelines s ! 0), Errors (sh_collector (pr_shared s)) ''app'',
           map text_body (sent (sh_sink (pr_shared s))), sh_exit (pr_shared s)))
     (exec ?e single_schedule (main_start single_conf))
   = Some (Finished, [''ERROR: disk full'', ''ERROR: timeout''],
           [''ERROR: disk full'' @ [CHR 0x0A] @ ''ERROR: timeout''], Some 0)"
    by (simp add: single_conf_def single_file_def single_schedule_def run_defs
        Errors_def errors_Add NewCollector_def Send_def HasErrors_def report_def index_map_def)
  have fin: "reported (pl_coord (pr_pipelines (the (exec ?e single_schedule (main_start single_conf))) ! 0))"
    using view by (auto simp: map_option_case split: option.splits)
  have errs: "Errors (sh_collector (pr_shared (the (exec ?e single_schedule (main_start single_conf))))) ''app''
      = [''ERROR: disk full'', ''ERROR: timeout'']"
    using view by (auto simp: map_option_case split: option.splits)
  have "filter (Match ?e (regexpMatcher ''ERROR'' ''ERROR'')) (scan_lines single_file)
     = [''ERROR: disk full'', ''ERROR: timeout'']"
    using single_matcher_order [OF reachable_the_exec [OF run], of 0 "''regexp''" "''ERROR''"
        "regexpMatcher ''ERROR'' ''ERROR''" single_file "''app''" "[]"
        "NewCollector [] [] []"] fin errs
    by (simp add: single_conf_def matcher_of_def NewRegexpMatcher_def example_env_def)
  with view show ?thesis by simp
qed

end
